theory Spec2Isabelle
  imports Complex_Main
begin

section \<open>Water-only routing on a hexagonal grid: the routing engine of autoroute.js\<close>

text \<open>
  The development embeds the routing functions of the repository's \<^verbatim>\<open>autoroute.js\<close>
  (the variant with the noise-tolerant land mask, the macro skeleton and the great-circle
  detour fallback), the older bounding-box variant where it differs, and the route handler
  of \<^verbatim>\<open>autoroute.worker.js\<close>.

  Conventions of the embedding.
  \<^item> A JavaScript number is a \<^typ>\<open>real\<close>: the finite doubles, without rounding.
    \<^verbatim>\<open>NaN\<close>, the infinities and signed zeros are outside the model. Counts that the
    source keeps integral (sample counts, ring counts, the expansion guard) are \<^typ>\<open>nat\<close>.
  \<^item> \<^verbatim>\<open>Math.sin\<close>, \<^verbatim>\<open>Math.cos\<close>, \<^verbatim>\<open>Math.asin\<close>, \<^verbatim>\<open>Math.sqrt\<close> are the real
    functions of the same name; \<^verbatim>\<open>Math.atan2\<close> and the remainder operator \<^verbatim>\<open>%\<close> are
    defined below.
  \<^item> The hex grid \<^verbatim>\<open>h3\<close> and the land test \<^verbatim>\<open>hasLandCell\<close> are capabilities handed in by
    the caller; they are parameters here as they are in the source, taken to be pure and total.
    A cell is a value of an arbitrary type \<open>'c\<close>.
  \<^item> \<^verbatim>\<open>null\<close> is \<open>None\<close>.
\<close>

subsection \<open>Spherical geometry helpers\<close>

record point =
  lng :: real
  lat :: real

definition R :: real where
  "R = 6371008.8"

definition toRad :: "real \<Rightarrow> real" where
  "toRad d = d * pi / 180"

definition toDeg :: "real \<Rightarrow> real" where
  "toDeg r = r * 180 / pi"

text \<open>The remainder \<^verbatim>\<open>x % m\<close> of JavaScript: the quotient is truncated towards zero,
  so the result has the sign of \<open>x\<close>.\<close>

definition fmod :: "real \<Rightarrow> real \<Rightarrow> real" where
  "fmod x m = x - m * of_int (if 0 \<le> x / m then \<lfloor>x / m\<rfloor> else \<lceil>x / m\<rceil>)"

text \<open>\<^verbatim>\<open>Math.atan2(y, x)\<close>: the angle of the point \<open>(x, y)\<close> in \<open>(-\<pi>, \<pi>]\<close>, and 0 at the origin.\<close>

definition atan2 :: "real \<Rightarrow> real \<Rightarrow> real" where
  "atan2 y x =
     (if 0 < x then arctan (y / x)
      else if x < 0 then (if 0 \<le> y then arctan (y / x) + pi else arctan (y / x) - pi)
      else if 0 < y then pi / 2
      else if y < 0 then - (pi / 2)
      else 0)"

definition hypot :: "real \<Rightarrow> real \<Rightarrow> real" where
  "hypot x y = sqrt (x * x + y * y)"

definition normLng :: "real \<Rightarrow> real" where
  "normLng l = fmod (l + 540) 360 - 180"

definition haversineM :: "point \<Rightarrow> point \<Rightarrow> real" where
  "haversineM a b =
     (let dLat = toRad (lat b - lat a); dLon = toRad (lng b - lng a);
          s1 = sin (dLat / 2); s2 = sin (dLon / 2);
          h = s1 * s1 + cos (toRad (lat a)) * cos (toRad (lat b)) * s2 * s2
      in 2 * R * arcsin (min 1 (sqrt h)))"

definition bearing :: "point \<Rightarrow> point \<Rightarrow> real" where
  "bearing a b =
     (let p1 = toRad (lat a); p2 = toRad (lat b);
          dl = toRad (lng b - lng a);
          y = sin dl * cos p2;
          x = cos p1 * sin p2 - sin p1 * cos p2 * cos dl
      in fmod (toDeg (atan2 y x) + 360) 360)"

definition destM :: "point \<Rightarrow> real \<Rightarrow> real \<Rightarrow> point" where
  "destM a meters brgDeg =
     (let dd = meters / R; th = toRad brgDeg;
          p1 = toRad (lat a); l1 = toRad (lng a);
          sinp1 = sin p1; cosp1 = cos p1;
          sind = sin dd; cosd = cos dd;
          sinp2 = sinp1 * cosd + cosp1 * sind * cos th;
          p2 = arcsin (min 1 (max (- 1) sinp2));
          y = sin th * sind * cosp1;
          x = cosd - sinp1 * sin p2;
          l2 = l1 + atan2 y x
      in \<lparr>lng = fmod (toDeg l2 + 540) 360 - 180, lat = toDeg p2\<rparr>)"

definition lerp :: "point \<Rightarrow> point \<Rightarrow> real \<Rightarrow> point" where
  "lerp A B t = \<lparr>lng = lng A + (lng B - lng A) * t, lat = lat A + (lat B - lat A) * t\<rparr>"

text \<open>The central angle between two points, as \<^verbatim>\<open>gcPoints\<close> computes it.\<close>

definition gcDelta :: "point \<Rightarrow> point \<Rightarrow> real" where
  "gcDelta A B =
     (let p1 = toRad (lat A); l1 = toRad (lng A);
          p2 = toRad (lat B); l2 = toRad (lng B);
          dp = p2 - p1; dl = l2 - l1;
          a = (sin (dp / 2))\<^sup>2 + cos p1 * cos p2 * (sin (dl / 2))\<^sup>2
      in 2 * arcsin (min 1 (sqrt a)))"

text \<open>The body of the loop of \<^verbatim>\<open>gcPoints\<close>: the point at the fraction \<open>i / n\<close> of the arc.\<close>

definition gcPoint :: "point \<Rightarrow> point \<Rightarrow> nat \<Rightarrow> nat \<Rightarrow> point" where
  "gcPoint A B n i =
     (let p1 = toRad (lat A); l1 = toRad (lng A);
          p2 = toRad (lat B); l2 = toRad (lng B);
          dd = gcDelta A B;
          sind = sin dd;
          x1 = cos p1 * cos l1; y1 = cos p1 * sin l1; z1 = sin p1;
          x2 = cos p2 * cos l2; y2 = cos p2 * sin l2; z2 = sin p2;
          f = real i / real n;
          A1 = sin ((1 - f) * dd) / sind;
          B1 = sin (f * dd) / sind;
          x = A1 * x1 + B1 * x2;
          y = A1 * y1 + B1 * y2;
          z = A1 * z1 + B1 * z2;
          p = atan2 z (hypot x y);
          l = atan2 y x
      in \<lparr>lng = fmod (toDeg l + 540) 360 - 180, lat = toDeg p\<rparr>)"

text \<open>\<^verbatim>\<open>gcPoints(A, B, n)\<close>: the two endpoints when the central angle is zero, and
  otherwise the \<open>n + 1\<close> points of the loop \<^verbatim>\<open>for (i = 0; i <= n; i++)\<close>.\<close>

definition gcPoints :: "point \<Rightarrow> point \<Rightarrow> nat \<Rightarrow> point list" where
  "gcPoints A B n =
     (if gcDelta A B = 0 then [A, B] else map (gcPoint A B n) [0..<n + 1])"

subsection \<open>The hex grid capability and the land membership oracle\<close>

text \<open>The three functions of \<^verbatim>\<open>h3\<close> that the router calls. \<^verbatim>\<open>geoToH3(lat, lng, res)\<close>
  gives the cell of a coordinate, \<^verbatim>\<open>h3ToGeo(cell)\<close> the pair \<open>(lat, lng)\<close> of its centre,
  \<^verbatim>\<open>kRing(cell, k)\<close> the cells within \<open>k\<close> steps.\<close>

record 'c h3api =
  geoToH3 :: "real \<Rightarrow> real \<Rightarrow> nat \<Rightarrow> 'c"
  h3ToGeo :: "'c \<Rightarrow> real \<times> real"
  kRing :: "'c \<Rightarrow> nat \<Rightarrow> 'c list"

text \<open>\<^verbatim>\<open>makeHasLandCellNoiseTolerant(h3, hasLandCell, neighborThresh)\<close>: the counter \<open>n\<close> of
  the source is the number of members of \<^verbatim>\<open>h3.kRing(cell, 1)\<close> that pass the base test.\<close>

definition makeHasLandCellNoiseTolerant ::
  "'c h3api \<Rightarrow> ('c \<Rightarrow> bool) \<Rightarrow> nat \<Rightarrow> 'c \<Rightarrow> bool" where
  "makeHasLandCellNoiseTolerant h hasLandCell neighborThresh cell =
     (if \<not> hasLandCell cell then False
      else neighborThresh \<le> length (filter hasLandCell (kRing h cell 1)))"

text \<open>\<^verbatim>\<open>makeIsCellBlocked({h3, h3Res, hasLandCell, dilateKRings})\<close>. The source keeps a memo
  table of the answers; with a pure land test the table does not change any answer, and the
  model is the function that fills it.\<close>

definition makeIsCellBlocked :: "'c h3api \<Rightarrow> ('c \<Rightarrow> bool) \<Rightarrow> nat \<Rightarrow> 'c \<Rightarrow> bool" where
  "makeIsCellBlocked h hasLandCell dilateKRings cell =
     (let noiseHasLand = makeHasLandCellNoiseTolerant h hasLandCell 3
      in if noiseHasLand cell then True
         else if 0 < dilateKRings then list_ex noiseHasLand (kRing h cell dilateKRings)
         else False)"

text \<open>The older variant of \<^verbatim>\<open>makeIsCellBlocked\<close> (the bounding-box router): the base land
  test without the noise filter.\<close>

definition makeIsCellBlocked_bbox :: "'c h3api \<Rightarrow> ('c \<Rightarrow> bool) \<Rightarrow> nat \<Rightarrow> 'c \<Rightarrow> bool" where
  "makeIsCellBlocked_bbox h hasLandCell dilateKRings cell =
     (if hasLandCell cell then True
      else if 0 < dilateKRings then list_ex hasLandCell (kRing h cell dilateKRings)
      else False)"

text \<open>A coordinate list of GeoJSON: pairs \<^verbatim>\<open>[lng, lat]\<close>.\<close>

type_synonym coords = "(real \<times> real) list"

subsection \<open>Collision checker\<close>

text \<open>The options object that the collision checker and the detour fallback receive.
  A field the caller may leave out is an option; the default of the source is applied where
  the field is read.\<close>

record 'c ctx =
  h3 :: "'c h3api"
  h3Res :: nat
  isCellBlocked :: "'c \<Rightarrow> bool"
  sampleMeters :: "real option"
  bearingStep :: "real option"
  radiiKm :: "real list option"

definition pointIsLand :: "real \<Rightarrow> real \<Rightarrow> 'c ctx \<Rightarrow> bool" where
  "pointIsLand lg la c = isCellBlocked c (geoToH3 (h3 c) la lg (h3Res c))"

text \<open>The sample count of \<^verbatim>\<open>chordCrossesLand\<close>:
  \<^verbatim>\<open>Math.max(48, Math.ceil(d / sampleMeters))\<close>, for a spacing other than zero.\<close>

definition sampleCount :: "real \<Rightarrow> real \<Rightarrow> nat" where
  "sampleCount d s = nat (max 48 \<lceil>d / s\<rceil>)"

text \<open>The points that \<^verbatim>\<open>chordCrossesLand\<close> tests: \<^verbatim>\<open>pts[1]\<close>, ..., \<^verbatim>\<open>pts[pts.length - 1]\<close>
  of the great-circle interpolation, in this order.\<close>

definition chordSamples :: "point \<Rightarrow> point \<Rightarrow> 'c ctx \<Rightarrow> point list" where
  "chordSamples A B c =
     (let d = haversineM A B;
          n = sampleCount d (case sampleMeters c of None \<Rightarrow> 250 | Some s \<Rightarrow> s);
          pts = gcPoints A B n
      in map (\<lambda>i. pts ! i) [1..<length pts])"

text \<open>The loop \<^verbatim>\<open>for (i = 1; i < pts.length; i++) if (pointIsLand(...)) return true\<close>.\<close>

fun firstLand :: "'c ctx \<Rightarrow> point list \<Rightarrow> point option" where
  "firstLand c [] = None"
| "firstLand c (p # ps) = (if pointIsLand (lng p) (lat p) c then Some p else firstLand c ps)"

definition chordCrossesLand :: "point \<Rightarrow> point \<Rightarrow> 'c ctx \<Rightarrow> bool" where
  "chordCrossesLand A B c = (firstLand c (chordSamples A B c) \<noteq> None)"

text \<open>The collision checker of the older variant: at least one sample, taken on the
  straight line in longitude and latitude.\<close>

definition chordCrossesLand_bbox :: "point \<Rightarrow> point \<Rightarrow> 'c ctx \<Rightarrow> bool" where
  "chordCrossesLand_bbox a b c =
     (let dist = haversineM a b;
          n = nat (max 1 \<lceil>dist / (case sampleMeters c of None \<Rightarrow> 500 | Some s \<Rightarrow> s)\<rceil>)
      in list_ex (\<lambda>i. isCellBlocked c
                        (let t = real i / real n;
                             p = \<lparr>lng = lng a + (lng b - lng a) * t, lat = lat a + (lat b - lat a) * t\<rparr>
                         in geoToH3 (h3 c) (lat p) (lng p) (h3Res c)))
           [1..<n + 1])"

subsection \<open>Fine A* search\<close>

text \<open>The options of \<^verbatim>\<open>aStarH3\<close>. \<open>allowed\<close> is the corridor (\<^verbatim>\<open>null\<close> for an unconstrained
  search), \<open>maxExpansions\<close> the cap on the expansions, 200000 when it is left out.\<close>

record 'c astarOpts =
  as_h3 :: "'c h3api"
  as_h3Res :: nat
  as_isCellBlocked :: "'c \<Rightarrow> bool"
  allowed :: "'c set option"
  maxExpansions :: "nat option"

text \<open>\<^verbatim>\<open>h3Center(cell, h3)\<close>, which the search also defines locally as \<^verbatim>\<open>center\<close>.\<close>

definition h3Center :: "'c \<Rightarrow> 'c h3api \<Rightarrow> point" where
  "h3Center cell h = (let (la, lo) = h3ToGeo h cell in \<lparr>lng = lo, lat = la\<rparr>)"

text \<open>The binary min-heap of pairs \<^verbatim>\<open>[f, cell]\<close>, kept in an array. \<open>siftUp\<close> is the loop of
  \<^verbatim>\<open>push\<close> from the index \<open>i\<close>, with the parent index \<^verbatim>\<open>(i - 1) >> 1\<close>; \<open>siftDown\<close> is the loop
  of \<^verbatim>\<open>pop\<close>.\<close>

function siftUp :: "(real \<times> 'c) list \<Rightarrow> nat \<Rightarrow> (real \<times> 'c) list" where
  "siftUp heap i =
     (if 0 < i then
        (let p = (i - 1) div 2
         in if fst (heap ! p) \<le> fst (heap ! i) then heap
            else siftUp (heap[p := heap ! i, i := heap ! p]) p)
      else heap)"
  by pat_completeness auto
termination
  by (relation "measure (\<lambda>(heap, i). i)") auto

definition push :: "real \<Rightarrow> 'c \<Rightarrow> (real \<times> 'c) list \<Rightarrow> (real \<times> 'c) list" where
  "push f c heap = siftUp (heap @ [(f, c)]) (length heap)"

text \<open>The index \<open>s\<close> that \<^verbatim>\<open>pop\<close> selects among \<open>i\<close> and its two children.\<close>

definition smallest :: "(real \<times> 'c) list \<Rightarrow> nat \<Rightarrow> nat" where
  "smallest heap i =
     (let l = i * 2 + 1; r = l + 1;
          s = (if l < length heap \<and> fst (heap ! l) < fst (heap ! i) then l else i)
      in if r < length heap \<and> fst (heap ! r) < fst (heap ! s) then r else s)"

function siftDown :: "(real \<times> 'c) list \<Rightarrow> nat \<Rightarrow> (real \<times> 'c) list" where
  "siftDown heap i =
     (let s = smallest heap i
      in if s = i then heap else siftDown (heap[i := heap ! s, s := heap ! i]) s)"
  by pat_completeness auto
termination
proof (relation "measure (\<lambda>(heap, i). length heap - i)")
  show "wf (measure (\<lambda>(heap :: (real \<times> 'c) list, i). length heap - i))" by simp
next
  fix heap :: "(real \<times> 'c) list" and i s
  assume s: "s = smallest heap i" "s \<noteq> i"
  then have "i < s \<and> s < length heap"
    by (auto simp: smallest_def Let_def split: if_splits)
  then show "((heap[i := heap ! s, s := heap ! i], s), heap, i)
               \<in> measure (\<lambda>(heap, i). length heap - i)"
    by (simp add: diff_less_mono2)
qed

text \<open>\<^verbatim>\<open>pop()\<close>: the top of the heap and the heap that is left, \<open>None\<close> on an empty heap.\<close>

definition pop :: "(real \<times> 'c) list \<Rightarrow> ((real \<times> 'c) \<times> (real \<times> 'c) list) option" where
  "pop heap =
     (if heap = [] then None
      else
        (let t = heap ! 0; v = last heap; rest = butlast heap
         in if rest \<noteq> [] then Some (t, siftDown (rest[0 := v]) 0) else Some (t, rest)))"

text \<open>The search state: the heap, the map \<open>g\<close> of the costs so far and the map \<open>came\<close> of the
  parent links.\<close>

type_synonym 'c astarState = "(real \<times> 'c) list \<times> ('c \<rightharpoonup> real) \<times> ('c \<rightharpoonup> 'c)"

text \<open>The options of the chord check on an edge,
  \<^verbatim>\<open>{ h3, h3Res, isCellBlocked, sampleMeters: 220 }\<close>.\<close>

definition edgeCtx :: "'c astarOpts \<Rightarrow> 'c ctx" where
  "edgeCtx opts =
     \<lparr>h3 = as_h3 opts, h3Res = as_h3Res opts, isCellBlocked = as_isCellBlocked opts,
      sampleMeters = Some 220, bearingStep = None, radiiKm = None\<rparr>"

text \<open>The body of the loop over the neighbours of \<open>cur\<close>, for one neighbour \<open>nb\<close>. The chord
  between the two centres is checked with a spacing of 220 m. A missing cost counts as
  infinite: nothing is relaxed from a cell without a cost, and a cell without a cost is always
  improved.\<close>

definition relax :: "'c astarOpts \<Rightarrow> point \<Rightarrow> 'c \<Rightarrow> 'c astarState \<Rightarrow> 'c \<Rightarrow> 'c astarState" where
  "relax opts goalC cur st nb =
     (let (heap, g, came) = st
      in if nb = cur then st
         else if (case allowed opts of None \<Rightarrow> False | Some a \<Rightarrow> nb \<notin> a) then st
         else if as_isCellBlocked opts nb then st
         else
           (let cC = h3Center cur (as_h3 opts); nC = h3Center nb (as_h3 opts)
            in if chordCrossesLand cC nC (edgeCtx opts)
               then st
               else
                 (case g cur of
                    None \<Rightarrow> st
                  | Some gc \<Rightarrow>
                      (let tentative = gc + haversineM cC nC
                       in if (case g nb of None \<Rightarrow> True | Some gn \<Rightarrow> tentative < gn)
                          then (push (tentative + haversineM nC goalC) nb heap,
                                g(nb \<mapsto> tentative), came(nb \<mapsto> cur))
                          else st))))"

text \<open>The reconstruction \<^verbatim>\<open>for (let k = cur; came.has(k);) { k = came.get(k); path.push(k); }\<close>.
  The loop follows the parent links for as long as there is one; not returning is \<open>None\<close>.\<close>

partial_function (option) walkParents :: "('c \<rightharpoonup> 'c) \<Rightarrow> 'c \<Rightarrow> 'c list \<Rightarrow> 'c list option" where
  "walkParents came k path =
     (case came k of None \<Rightarrow> Some path | Some p \<Rightarrow> walkParents came p (path @ [p]))"

text \<open>The main loop \<^verbatim>\<open>while (heap.length)\<close>, with the guard counter. It returns the number of
  cells popped (the expansions) together with the outcome: \<open>Some None\<close> for \<^verbatim>\<open>null\<close>,
  \<open>Some (Some path)\<close> for a path, \<open>None\<close> when the reconstruction does not return.\<close>

function aStarLoop ::
  "'c astarOpts \<Rightarrow> 'c \<Rightarrow> point \<Rightarrow> nat \<Rightarrow> 'c astarState \<Rightarrow> nat \<Rightarrow> nat \<times> 'c list option option" where
  "aStarLoop opts goalCell goalC maxE st guard =
     (let (heap, g, came) = st
      in if heap = [] then (guard, Some None)
         else if maxE < guard + 1 then (guard, Some None)
         else
           (case pop heap of
              None \<Rightarrow> (guard, Some None)
            | Some ((f, cur), heap') \<Rightarrow>
                if cur = goalCell
                then (guard + 1, map_option (\<lambda>path. Some (rev path)) (walkParents came cur [cur]))
                else aStarLoop opts goalCell goalC maxE
                       (foldl (relax opts goalC cur) (heap', g, came) (kRing (as_h3 opts) cur 1))
                       (guard + 1)))"
  by pat_completeness auto
termination
  by (relation "measure (\<lambda>(opts, goalCell, goalC, maxE, st, guard). maxE - guard)") auto

text \<open>The search from its initial state: the start cell with cost 0 on the heap. The first
  component is the number of expansions.\<close>

definition aStarRun :: "'c \<Rightarrow> 'c \<Rightarrow> 'c astarOpts \<Rightarrow> nat \<times> 'c list option option" where
  "aStarRun startCell goalCell opts =
     (if startCell = goalCell then (0, Some (Some [startCell]))
      else
        (let goalC = h3Center goalCell (as_h3 opts);
             f0 = (\<lambda>c. haversineM (h3Center c (as_h3 opts)) goalC);
             g = [startCell \<mapsto> 0];
             heap = push (f0 startCell) startCell []
         in aStarLoop opts goalCell goalC
              (case maxExpansions opts of None \<Rightarrow> 200000 | Some m \<Rightarrow> m)
              (heap, g, Map.empty) 0))"

definition aStarH3 :: "'c \<Rightarrow> 'c \<Rightarrow> 'c astarOpts \<Rightarrow> 'c list option option" where
  "aStarH3 startCell goalCell opts = snd (aStarRun startCell goalCell opts)"

text \<open>The chain of parent links from a cell up to a cell without a parent.\<close>

inductive parentChain :: "('c \<rightharpoonup> 'c) \<Rightarrow> 'c \<Rightarrow> 'c list \<Rightarrow> bool" where
  root: "came x = None \<Longrightarrow> parentChain came x [x]"
| link: "came x = Some p \<Longrightarrow> parentChain came p ps \<Longrightarrow> parentChain came x (x # ps)"

text \<open>An edge that the search accepts from the cell \<open>a\<close> to its neighbour \<open>b\<close>.\<close>

definition astarEdge :: "'c astarOpts \<Rightarrow> 'c \<Rightarrow> 'c \<Rightarrow> bool" where
  "astarEdge opts a b =
     (b \<in> set (kRing (as_h3 opts) a 1) \<and> b \<noteq> a
      \<and> (case allowed opts of None \<Rightarrow> True | Some s \<Rightarrow> b \<in> s)
      \<and> \<not> as_isCellBlocked opts b
      \<and> \<not> chordCrossesLand (h3Center a (as_h3 opts)) (h3Center b (as_h3 opts)) (edgeCtx opts))"

text \<open>The invariant of the search, for the start cell: the start has cost 0 and no parent,
  costs are not negative, every cell with a cost has a chain of parent links that ends at the
  start and passes only through cells of no greater cost, every parent link is an accepted
  edge, and every cell on the heap has a cost.\<close>

definition astarInv :: "'c astarOpts \<Rightarrow> 'c \<Rightarrow> 'c astarState \<Rightarrow> bool" where
  "astarInv opts start st =
     (let (heap, g, came) = st
      in g start = Some 0
         \<and> (\<forall>x v. g x = Some v \<longrightarrow> 0 \<le> v)
         \<and> came start = None
         \<and> (\<forall>x vx. g x = Some vx \<longrightarrow>
               (\<exists>ps. parentChain came x ps \<and> last ps = start
                     \<and> (\<forall>y \<in> set ps. \<exists>vy. g y = Some vy \<and> vy \<le> vx)))
         \<and> (\<forall>x p. came x = Some p \<longrightarrow> astarEdge opts p x)
         \<and> (\<forall>e \<in> set heap. g (snd e) \<noteq> None))"

subsection \<open>Smoothing\<close>



subsection \<open>Great-circle detour fallback\<close>

text \<open>\<^verbatim>\<open>firstHitOnSegment(A, B, ctx)\<close>: the first sampled point on land, the start included.\<close>

definition firstHitOnSegment :: "point \<Rightarrow> point \<Rightarrow> 'c ctx \<Rightarrow> point option" where
  "firstHitOnSegment A B c =
     (let d = haversineM A B;
          n = nat (max 256 \<lceil>d / max 250 (case sampleMeters c of None \<Rightarrow> 400 | Some s \<Rightarrow> s)\<rceil>);
          pts = gcPoints A B n
      in firstLand c pts)"

text \<open>The loop \<^verbatim>\<open>for (let b = 0; b < 360; b += step) raw.push(b)\<close> of
  \<^verbatim>\<open>bearingsFanAround\<close>. With a step that is not positive the source does not leave it;
  not returning is \<open>None\<close>.\<close>

partial_function (option) fanRaw :: "real \<Rightarrow> real \<Rightarrow> real list \<Rightarrow> real list option" where
  "fanRaw step b raw = (if b < 360 then fanRaw step (b + step) (raw @ [b]) else Some raw)"

text \<open>\<^verbatim>\<open>bearingsFanAround(center, step, widen)\<close>: the bearings sorted by their angular distance
  from \<open>center\<close> (the sort of JavaScript is stable), the twelve nearest repeated in front when
  \<open>widen > 1\<close>.\<close>

definition fanScore :: "real \<Rightarrow> real \<Rightarrow> real" where
  "fanScore center b =
     (let norm = (\<lambda>x. fmod (fmod x 360 + 360) 360)
      in min \<bar>norm (b - center)\<bar> (360 - \<bar>norm (b - center)\<bar>))"

definition bearingsFanAround :: "real \<Rightarrow> real \<Rightarrow> real \<Rightarrow> real list option" where
  "bearingsFanAround center step widen =
     (case fanRaw step 0 [] of
        None \<Rightarrow> None
      | Some raw \<Rightarrow>
          (let sorted = sort_key (fanScore center) raw
           in Some (if 1 < widen then take 12 sorted @ sorted else sorted)))"

text \<open>\<^verbatim>\<open>trySingleDetour(A, B, ctx)\<close>: the candidates \<open>C\<close> in the order of the two nested loops,
  radii outside and bearings inside; the first candidate that passes the three tests gives
  \<open>[A, C, B]\<close>. The outer \<open>option\<close> is \<open>None\<close> when the fan of bearings is never built.\<close>

definition trySingleDetour :: "point \<Rightarrow> point \<Rightarrow> 'c ctx \<Rightarrow> point list option option" where
  "trySingleDetour A B c =
     (let hit = (case firstHitOnSegment A B c of Some h \<Rightarrow> h | None \<Rightarrow> lerp A B (1 / 2));
          brgAB = bearing A B;
          perp = fmod (brgAB + 90) 360
      in case bearingsFanAround perp (case bearingStep c of None \<Rightarrow> 10 | Some s \<Rightarrow> s) 2 of
           None \<Rightarrow> None
         | Some bearings \<Rightarrow>
             (let radii = (case radiiKm c of None \<Rightarrow> [150, 300, 600, 900, 1200, 1600, 2000]
                                            | Some rs \<Rightarrow> rs);
                  cands = concat (map (\<lambda>rKm. map (\<lambda>brg. destM hit (rKm * 1000) brg) bearings) radii)
              in Some (case find (\<lambda>C. \<not> pointIsLand (lng C) (lat C) c
                                      \<and> \<not> chordCrossesLand A C c
                                      \<and> \<not> chordCrossesLand C B c) cands of
                         None \<Rightarrow> None
                       | Some C \<Rightarrow> Some [A, C, B])))"

text \<open>\<^verbatim>\<open>landAwareFallback(A, B, ctx, depth, maxDepth)\<close>; the call of the router passes
  \<open>depth = 0\<close> and \<open>maxDepth = 8\<close>, which are the defaults as well. The inner \<open>option\<close> is the
  polyline or \<^verbatim>\<open>null\<close>, the outer one is \<open>None\<close> when the call does not return.\<close>

function landAwareFallback ::
  "point \<Rightarrow> point \<Rightarrow> 'c ctx \<Rightarrow> nat \<Rightarrow> nat \<Rightarrow> point list option option" where
  "landAwareFallback A B c depth maxDepth =
     (if maxDepth < depth then Some None
      else if \<not> chordCrossesLand A B c then Some (Some [A, B])
      else
        (case trySingleDetour A B c of
           None \<Rightarrow> None
         | Some (Some detour) \<Rightarrow> Some (Some detour)
         | Some None \<Rightarrow>
             (let mid = lerp A B (1 / 2)
              in case landAwareFallback A mid c (depth + 1) maxDepth of
                   None \<Rightarrow> None
                 | Some L \<Rightarrow>
                     (case landAwareFallback mid B c (depth + 1) maxDepth of
                        None \<Rightarrow> None
                      | Some Rt \<Rightarrow>
                          (case (L, Rt) of
                             (Some l, Some r) \<Rightarrow> Some (Some (butlast l @ r))
                           | _ \<Rightarrow> Some None)))))"
  by pat_completeness auto
termination
  by (relation "measure (\<lambda>(A, B, c, depth, maxDepth). maxDepth + 1 - depth)") auto

subsection \<open>Endpoint snapping\<close>

text \<open>The options of \<^verbatim>\<open>snapEndpointToWater\<close>; the defaults of the source are
  \<^verbatim>\<open>dilateKRings = 1\<close>, \<^verbatim>\<open>searchMaxRings = 120\<close>, \<^verbatim>\<open>safetyMeters = 150\<close> and
  \<^verbatim>\<open>hintBearing = null\<close> (a bearing that is not a finite number counts as none).\<close>

record 'c snapOpts =
  snap_h3 :: "'c h3api"
  snap_h3Res :: nat
  snap_hasLandCell :: "'c \<Rightarrow> bool"
  snap_dilateKRings :: "nat option"
  searchMaxRings :: "nat option"
  safetyMeters :: "real option"
  hintBearing :: "real option"

text \<open>The result object: the snapped point, the dock leg (two coordinate pairs
  \<^verbatim>\<open>[lng, lat]\<close>, or \<^verbatim>\<open>null\<close>) and the \<^verbatim>\<open>type\<close> recorded in the debug field.\<close>

datatype dockType = NoDock | NoWater | StraightCenter | Straight

record snapResult =
  point :: point
  dockLeg :: "coords option"
  dock :: dockType

text \<open>\<^verbatim>\<open>firstGoodAlong(bearingDeg)\<close>: the distances 150, 300, ..., 6000 of the loop
  \<^verbatim>\<open>for (let d = step; d <= max; d += step)\<close>.\<close>

definition firstGoodAlong :: "'c h3api \<Rightarrow> nat \<Rightarrow> ('c \<Rightarrow> bool) \<Rightarrow> point \<Rightarrow> real \<Rightarrow> point option" where
  "firstGoodAlong h res blocked p bearingDeg =
     find (\<lambda>q. \<not> blocked (geoToH3 h (lat q) (lng q) res))
       (map (\<lambda>i. destM p (150 * real i) bearingDeg) [1..<41])"

text \<open>The target \<open>C\<close> of the walk: the first open point along the hint bearing if there is a
  hint and it finds one, and otherwise the centre of the first unblocked cell of the rings
  \<open>1, \<dots>, searchMaxRings\<close> around the seed, each ring in the order \<^verbatim>\<open>h3.kRing\<close> lists it.\<close>

definition snapTarget ::
  "'c h3api \<Rightarrow> nat \<Rightarrow> ('c \<Rightarrow> bool) \<Rightarrow> point \<Rightarrow> real option \<Rightarrow> nat \<Rightarrow> point option" where
  "snapTarget h res blocked p hint maxRings =
     (let seed = geoToH3 h (lat p) (lng p) res;
          C = (case hint of None \<Rightarrow> None | Some b \<Rightarrow> firstGoodAlong h res blocked p b)
      in case C of
           Some c \<Rightarrow> Some c
         | None \<Rightarrow>
             (case find (\<lambda>c. \<not> blocked c) (concat (map (\<lambda>r. kRing h seed r) [1..<maxRings + 1])) of
                None \<Rightarrow> None
              | Some targetCell \<Rightarrow>
                  (let (tLat, tLng) = h3ToGeo h targetCell in Some \<lparr>lng = tLng, lat = tLat\<rparr>)))"

text \<open>The walk towards \<open>C\<close> in twenty steps: the first fraction \<open>t = i / 20\<close> whose point lies
  in an unblocked cell.\<close>

definition firstWaterT :: "'c h3api \<Rightarrow> nat \<Rightarrow> ('c \<Rightarrow> bool) \<Rightarrow> point \<Rightarrow> point \<Rightarrow> real option" where
  "firstWaterT h res blocked p C =
     find (\<lambda>t. let q = lerp p C t in \<not> blocked (geoToH3 h (lat q) (lng q) res))
       (map (\<lambda>i. real i / 20) [1..<21])"

text \<open>The bisection \<^verbatim>\<open>for (let iter = 0; iter < 24; iter++)\<close> with its early exit, by the
  number of iterations left; it returns the final \<open>(lo, hi)\<close>.\<close>

fun shoreBisect ::
  "'c h3api \<Rightarrow> nat \<Rightarrow> ('c \<Rightarrow> bool) \<Rightarrow> point \<Rightarrow> point \<Rightarrow> nat \<Rightarrow> real \<Rightarrow> real \<Rightarrow> real \<times> real" where
  "shoreBisect h res blocked p C 0 lo hi = (lo, hi)"
| "shoreBisect h res blocked p C (Suc n) lo hi =
     (let mid = (lo + hi) / 2;
          q = lerp p C mid;
          blk = blocked (geoToH3 h (lat q) (lng q) res);
          lo' = (if blk then mid else lo);
          hi' = (if blk then hi else mid)
      in if haversineM (lerp p C lo') (lerp p C hi') < 60 then (lo', hi')
         else shoreBisect h res blocked p C n lo' hi')"

definition snapEndpointToWater :: "point \<Rightarrow> 'c snapOpts \<Rightarrow> snapResult" where
  "snapEndpointToWater p opts =
     (let h = snap_h3 opts; res = snap_h3Res opts;
          isCellBlockedCoarse = makeIsCellBlocked h (snap_hasLandCell opts)
                                  (case snap_dilateKRings opts of None \<Rightarrow> 1 | Some k \<Rightarrow> k);
          seed = geoToH3 h (lat p) (lng p) res
      in if \<not> isCellBlockedCoarse seed then \<lparr>point = p, dockLeg = None, dock = NoDock\<rparr>
         else
           (case snapTarget h res isCellBlockedCoarse p (hintBearing opts)
                   (case searchMaxRings opts of None \<Rightarrow> 120 | Some m \<Rightarrow> m) of
              None \<Rightarrow> \<lparr>point = p, dockLeg = None, dock = NoWater\<rparr>
            | Some C \<Rightarrow>
                (case firstWaterT h res isCellBlockedCoarse p C of
                   None \<Rightarrow> \<lparr>point = C, dockLeg = Some [(lng p, lat p), (lng C, lat C)],
                             dock = StraightCenter\<rparr>
                 | Some t \<Rightarrow>
                     (let (lo, hi) = shoreBisect h res isCellBlockedCoarse p C 24
                                       (max 0 (t - 1 / 20)) t;
                          q = lerp p C hi;
                          Q = destM q (case safetyMeters opts of None \<Rightarrow> 150 | Some m \<Rightarrow> m)
                                (bearing p C)
                      in \<lparr>point = Q, dockLeg = Some [(lng p, lat p), (lng Q, lat Q)],
                          dock = Straight\<rparr>))))"

subsection \<open>Nudging an endpoint offshore (the older variant)\<close>





subsection \<open>The route handler of the worker\<close>

text \<open>The state of \<^verbatim>\<open>autoroute.worker.js\<close>: the grid module, the Bloom filter of the land
  mask (\<open>None\<close> before the \<^verbatim>\<open>init\<close> message), the calibrated mode of the filter and the
  resolution it was calibrated for. \<open>depsError\<close> is the error of \<^verbatim>\<open>ensureDeps\<close>, if the
  import of the modules fails.\<close>

datatype bfMode = LandMode | WaterMode | UnknownMode

record 'c worker =
  w_h3 :: "'c h3api"
  landBF :: "('c \<Rightarrow> bool) option"
  bfMode :: bfMode
  bfCalibratedForRes :: "nat option"
  depsError :: "string option"

text \<open>The routing options of a request, as far as the worker reads them.\<close>

record 'c routeOpts =
  ro_h3Res :: nat
  ro_dilateKRings :: nat
  ro_padDeg :: real
  ro_sampleMeters :: real
  ro_corridorStepDeg :: real
  landOverrides :: "'c list"

text \<open>The messages the worker posts.\<close>

datatype msg =
  Inited bfMode bool bool nat
  | Started nat bfMode
  | RouteMsg coords
  | ErrorMsg string

text \<open>\<^verbatim>\<open>calibrateBloom(h3Res)\<close>: the posted messages and the new state.\<close>

definition calibrateBloom :: "'c worker \<Rightarrow> nat \<Rightarrow> msg list \<times> 'c worker" where
  "calibrateBloom w res =
     (case landBF w of
        None \<Rightarrow> ([], w)
      | Some bf \<Rightarrow>
          if bfCalibratedForRes w = Some res \<and> bfMode w \<noteq> UnknownMode then ([], w)
          else
            (let kansas = geoToH3 (w_h3 w) 38 (- 100) res;
                 atl = geoToH3 (w_h3 w) 30 (- 40) res;
                 hasKansas = bf kansas;
                 hasAtl = bf atl;
                 m = (if hasKansas \<and> \<not> hasAtl then LandMode
                      else if \<not> hasKansas \<and> hasAtl then WaterMode
                      else LandMode)
             in ([Inited m hasKansas hasAtl res], w\<lparr>bfMode := m, bfCalibratedForRes := Some res\<rparr>)))"

text \<open>\<^verbatim>\<open>makeHasLandCellForMode(mode)\<close>: the test \<^verbatim>\<open>landBF.has(cell)\<close>, negated in the water
  mode. The closure is built whether or not a filter is loaded; without one, a call of it
  throws the \<^verbatim>\<open>TypeError\<close> of reading \<^verbatim>\<open>has\<close> from \<^verbatim>\<open>null\<close> (\<open>Inl\<close> of its message, in
  the wording of the V8 engine).\<close>

definition nullHasError :: string where
  "nullHasError = ''Cannot read properties of null (reading 'has')''"

definition makeHasLandCellForMode :: "('c \<Rightarrow> bool) option \<Rightarrow> bfMode \<Rightarrow> 'c \<Rightarrow> string + bool" where
  "makeHasLandCellForMode bf mode cell =
     (case bf of
        None \<Rightarrow> Inl nullHasError
      | Some bloom \<Rightarrow> (let hit = bloom cell in Inr (if mode = WaterMode then \<not> hit else hit)))"

text \<open>\<^verbatim>\<open>tryRouteOnce({pts, opts, mode})\<close>. The router \<^verbatim>\<open>autorouteFn\<close> is the module the worker
  has imported: a parameter, which gets the land test, the points and the options and either
  throws (\<open>Inl\<close> of the message) or returns the coordinates of a route. The router is called
  in every case; the land test it gets answers \<^verbatim>\<open>true\<close> on the cells of \<^verbatim>\<open>landOverrides\<close>
  without reading the filter, and on the other cells it is the test of the mode, which
  throws when no filter is loaded.\<close>

definition tryRouteOnce ::
  "(('c \<Rightarrow> string + bool) \<Rightarrow> coords \<Rightarrow> 'c routeOpts \<Rightarrow> string + coords) \<Rightarrow> 'c worker \<Rightarrow> coords
     \<Rightarrow> 'c routeOpts \<Rightarrow> bfMode \<Rightarrow> string + coords" where
  "tryRouteOnce autorouteFn w pts opts mode =
     (let hasLandCellRaw = makeHasLandCellForMode (landBF w) mode;
          hasLandCell = (\<lambda>cell. if cell \<in> set (landOverrides opts) then Inr True
                                else hasLandCellRaw cell)
      in autorouteFn hasLandCell pts opts)"

text \<open>The handler of a \<^verbatim>\<open>route\<close> message: the messages posted, in order, and the new state.
  \<open>pts\<close> is \<open>None\<close> when the message carries no points.\<close>

definition handleRoute ::
  "(('c \<Rightarrow> string + bool) \<Rightarrow> coords \<Rightarrow> 'c routeOpts \<Rightarrow> string + coords) \<Rightarrow> 'c worker \<Rightarrow> coords option
     \<Rightarrow> 'c routeOpts \<Rightarrow> msg list \<times> 'c worker" where
  "handleRoute autorouteFn w pts opts =
     (case depsError w of
        Some e \<Rightarrow> ([ErrorMsg e], w)
      | None \<Rightarrow>
          (case pts of
             None \<Rightarrow> ([ErrorMsg ''Need at least two points''], w)
           | Some ps \<Rightarrow>
               if length ps < 2 then ([ErrorMsg ''Need at least two points''], w)
               else
                 (let (cal, w1) = calibrateBloom w (ro_h3Res opts);
                      started = cal @ [Started (length ps - 1) (bfMode w1)];
                      retry = (\<lambda>e1.
                        (let flipped = (if bfMode w1 = LandMode then WaterMode else LandMode)
                         in case tryRouteOnce autorouteFn w1 ps opts flipped of
                              Inl e2 \<Rightarrow> (started @ [ErrorMsg e2], w1)
                            | Inr cs \<Rightarrow>
                                if 2 \<le> length cs then (started @ [RouteMsg cs], w1)
                                else (started @ [ErrorMsg e1], w1)))
                  in case tryRouteOnce autorouteFn w1 ps opts (bfMode w1) of
                       Inl e1 \<Rightarrow> retry e1
                     | Inr cs \<Rightarrow>
                         if 2 \<le> length cs then (started @ [RouteMsg cs], w1)
                         else retry ''empty route'')))"

text \<open>The outer loop of \<^verbatim>\<open>autoroute\<close>,
  \<^verbatim>\<open>for (let i = 0; i < waypoints.length - 1; i++)\<close>, over the legs of the request. The body
  of the loop, which routes the leg \<open>i\<close> and appends to \<^verbatim>\<open>routeCoords\<close> or throws, is a
  parameter here; the function returns the coordinates collected by the legs.\<close>

fun autorouteLegs ::
  "(coords \<Rightarrow> nat \<Rightarrow> coords \<Rightarrow> string + coords) \<Rightarrow> coords \<Rightarrow> nat list \<Rightarrow> coords \<Rightarrow> string + coords" where
  "autorouteLegs leg waypoints [] routeCoords = Inr routeCoords"
| "autorouteLegs leg waypoints (i # is) routeCoords =
     (case leg waypoints i routeCoords of
        Inl e \<Rightarrow> Inl e
      | Inr rc \<Rightarrow> autorouteLegs leg waypoints is rc)"

definition autoroute :: "(coords \<Rightarrow> nat \<Rightarrow> coords \<Rightarrow> string + coords) \<Rightarrow> coords \<Rightarrow> string + coords" where
  "autoroute leg waypoints = autorouteLegs leg waypoints [0..<length waypoints - 1] []"


subsection \<open>A concrete grid for evaluation\<close>

text \<open>A flat hexagonal grid in axial coordinates \<open>(q, r)\<close>: \<open>q\<close> counts thousandths of a
  degree of latitude and \<open>r\<close> thousandths of a degree of longitude (cells about 111 m wide), at
  every resolution. The latitude of a centre is kept within the valid range. As in h3-js, the ring of radius \<open>k\<close> is the filled disk: it contains the centre
  cell itself (the router relies on this: its neighbour loops skip \<^verbatim>\<open>nb === cur\<close>).\<close>

definition hexRing :: "int \<times> int \<Rightarrow> nat \<Rightarrow> (int \<times> int) list" where
  "hexRing c k =
     [(fst c + dq, snd c + dr). dq \<leftarrow> [- int k..int k], dr \<leftarrow> [- int k..int k],
        \<bar>dq + dr\<bar> \<le> int k]"

definition hexGrid :: "(int \<times> int) h3api" where
  "hexGrid = \<lparr>geoToH3 = (\<lambda>la lo res. (\<lfloor>la * 1000\<rfloor>, \<lfloor>lo * 1000\<rfloor>)),
              h3ToGeo = (\<lambda>c. (max (- 90) (min 90 ((real_of_int (fst c) + 1 / 2) / 1000)),
                             (real_of_int (snd c) + 1 / 2) / 1000)),
              kRing = hexRing\<rparr>"

text \<open>The centre of the cell \<open>(q, 0)\<close> of the flat grid; these centres lie on one meridian,
  where the interpolation has a closed form. An options object over the flat grid.\<close>

definition gridPt :: "int \<Rightarrow> point" where
  "gridPt q = \<lparr>lng = 1 / 2000, lat = (of_int q + 1 / 2) / 1000\<rparr>"

definition gridCtx :: "(int \<times> int \<Rightarrow> bool) \<Rightarrow> real \<Rightarrow> (int \<times> int) ctx" where
  "gridCtx blocked s =
     \<lparr>h3 = hexGrid, h3Res = 9, isCellBlocked = blocked, sampleMeters = Some s,
      bearingStep = None, radiiKm = None\<rparr>"

text \<open>A land test on the flat grid: land in the rows of latitude \<open>q \<ge> 0\<close> and \<open>q \<le> -4\<close>, and
  between them a channel of three rows of water (about 330 m wide).\<close>

definition channelLand :: "int \<times> int \<Rightarrow> bool" where
  "channelLand c = (0 \<le> fst c \<or> fst c \<le> - 4)"

text \<open>A waypoint on the north bank of the channel, and the options of a snapping call there:
  defaults throughout, except for the safety distance, which is left open.\<close>

definition bankPt :: point where
  "bankPt = \<lparr>lng = 1 / 2000, lat = 7 / 10000\<rparr>"

definition channelOpts :: "real option \<Rightarrow> (int \<times> int) snapOpts" where
  "channelOpts safety =
     \<lparr>snap_h3 = hexGrid, snap_h3Res = 9, snap_hasLandCell = channelLand,
      snap_dilateKRings = None, searchMaxRings = None, safetyMeters = safety,
      hintBearing = None\<rparr>"

text \<open>A canal on the flat grid: the cells of the column \<open>r = 0\<close> from the row 0 northwards
  are open, every other cell is blocked. The options of a search on it, without a corridor.\<close>

definition canalBlocked :: "int \<times> int \<Rightarrow> bool" where
  "canalBlocked c = (snd c \<noteq> 0 \<or> fst c < 0)"

definition canalOpts :: "nat option \<Rightarrow> (int \<times> int) astarOpts" where
  "canalOpts maxE =
     \<lparr>as_h3 = hexGrid, as_h3Res = 9, as_isCellBlocked = canalBlocked, allowed = None,
      maxExpansions = maxE\<rparr>"

text \<open>The six neighbours of a cell: its ring of radius one without the cell itself.\<close>

definition neighbors :: "'c h3api \<Rightarrow> 'c \<Rightarrow> 'c list" where
  "neighbors h cell = filter (\<lambda>nb. nb \<noteq> cell) (kRing h cell 1)"


section \<open>Properties\<close>

subsection \<open>Geometry\<close>

lemma R_pos: "0 < R" by (simp add: R_def)

lemma toDeg_toRad [simp]: "toDeg (toRad x) = x"
  by (simp add: toDeg_def toRad_def)

lemma toRad_toDeg [simp]: "toRad (toDeg x) = x"
  by (simp add: toDeg_def toRad_def)

lemma toRad_abs: "toRad \<bar>x\<bar> = \<bar>toRad x\<bar>"
  by (simp add: toRad_def abs_mult)

lemma toRad_mono: "x \<le> y \<Longrightarrow> toRad x \<le> toRad y"
  by (simp add: toRad_def divide_right_mono)

lemma toRad_180: "toRad 180 = pi" by (simp add: toRad_def)
lemma toRad_90: "toRad 90 = pi / 2" by (simp add: toRad_def)
lemma toRad_0 [simp]: "toRad 0 = 0" by (simp add: toRad_def)
lemma toRad_diff: "toRad (x - y) = toRad x - toRad y" by (simp add: toRad_def field_simps)
lemma toRad_add: "toRad (x + y) = toRad x + toRad y" by (simp add: toRad_def field_simps)
lemma toRad_less_iff: "toRad x < toRad y \<longleftrightarrow> x < y" by (simp add: toRad_def field_simps)

lemma fmod_540: "- 180 \<le> l \<Longrightarrow> l < 180 \<Longrightarrow> fmod (l + 540) 360 - 180 = l"
proof -
  assume a: "- 180 \<le> l" "l < 180"
  have "\<lfloor>(l + 540) / 360\<rfloor> = 1" using a by (simp add: floor_eq_iff)
  then show ?thesis using a by (simp add: fmod_def)
qed

lemma sqrt_sin_sq: "\<bar>x\<bar> \<le> pi / 2 \<Longrightarrow> sqrt (sin x * sin x) = sin \<bar>x\<bar>"
proof -
  assume xb: "\<bar>x\<bar> \<le> pi / 2"
  have "0 \<le> sin \<bar>x\<bar>" using xb by (intro sin_ge_zero) auto
  moreover have "sin x * sin x = sin \<bar>x\<bar> * sin \<bar>x\<bar>" by (simp add: abs_if)
  ultimately show ?thesis by simp
qed

lemma haversineM_meridian:
  assumes "lng a = lng b" "\<bar>lat b - lat a\<bar> \<le> 180"
  shows "haversineM a b = R * toRad \<bar>lat b - lat a\<bar>"
proof -
  define x where "x = toRad (lat b - lat a) / 2"
  have "\<bar>toRad (lat b - lat a)\<bar> \<le> pi"
    using toRad_mono [OF assms(2)] by (simp add: toRad_abs toRad_180)
  then have xb: "\<bar>x\<bar> \<le> pi / 2" by (simp add: x_def)
  have "arcsin (min 1 (sin \<bar>x\<bar>)) = \<bar>x\<bar>"
    using xb by (simp add: min_absorb2 arcsin_sin)
  then have "haversineM a b = 2 * R * \<bar>x\<bar>"
    using assms(1) sqrt_sin_sq [OF xb] by (simp add: haversineM_def Let_def x_def)
  also have "\<dots> = R * toRad \<bar>lat b - lat a\<bar>"
    by (simp add: x_def toRad_abs)
  finally show ?thesis .
qed

lemma gcDelta_meridian:
  assumes "lng a = lng b" "\<bar>lat b - lat a\<bar> \<le> 180"
  shows "gcDelta a b = toRad \<bar>lat b - lat a\<bar>"
proof -
  define x where "x = (toRad (lat b) - toRad (lat a)) / 2"
  have "\<bar>toRad (lat b - lat a)\<bar> \<le> pi"
    using toRad_mono [OF assms(2)] by (simp add: toRad_abs toRad_180)
  then have xb: "\<bar>x\<bar> \<le> pi / 2" by (simp add: x_def toRad_diff)
  have "arcsin (min 1 (sin \<bar>x\<bar>)) = \<bar>x\<bar>"
    using xb by (simp add: min_absorb2 arcsin_sin)
  then have "gcDelta a b = 2 * \<bar>x\<bar>"
    using assms(1) sqrt_sin_sq [OF xb] by (simp add: gcDelta_def Let_def x_def power2_eq_square)
  also have "\<dots> = toRad \<bar>lat b - lat a\<bar>"
    by (simp add: x_def toRad_abs toRad_diff)
  finally show ?thesis .
qed

lemma atan2_sin_cos: "- (pi / 2) < u \<Longrightarrow> u < pi / 2 \<Longrightarrow> atan2 (sin u) (cos u) = u"
proof -
  assume a: "- (pi / 2) < u" "u < pi / 2"
  then have "0 < cos u" by (simp add: cos_gt_zero_pi)
  then show ?thesis using a arctan_tan [of u] by (simp add: atan2_def tan_def)
qed

lemma atan2_0_pos: "0 < x \<Longrightarrow> atan2 0 x = 0" by (simp add: atan2_def)
lemma atan2_0_neg: "x < 0 \<Longrightarrow> atan2 0 x = pi" by (simp add: atan2_def)

text \<open>Points of the great-circle interpolation along a meridian, going north.\<close>
lemma gcPoint_meridian:
  assumes l: "lng A = l" "lng B = l" "- 90 < l" "l < 90"
    and la: "- 90 < lat A" "lat A < lat B" "lat B < 90"
    and i: "i \<le> n" "0 < n"
  shows "gcPoint A B n i = \<lparr>lng = l, lat = lat A + (lat B - lat A) * (real i / real n)\<rparr>"
proof -
  define p1 where "p1 = toRad (lat A)"
  define p2 where "p2 = toRad (lat B)"
  define dd where "dd = p2 - p1"
  define f where "f = real i / real n"
  define u where "u = p1 + f * dd"
  have f01: "0 \<le> f" "f \<le> 1" using i by (simp_all add: f_def)
  have p1b: "- (pi / 2) < p1" using la(1) toRad_less_iff [of "- 90" "lat A"] by (simp add: p1_def toRad_def)
  have p2b: "p2 < pi / 2" using la(3) toRad_less_iff [of "lat B" 90] by (simp add: p2_def toRad_def)
  have p12: "p1 < p2" using la(2) by (simp add: p1_def p2_def toRad_less_iff)
  have ddpos: "0 < dd" "dd < pi" using p12 p1b p2b by (simp_all add: dd_def)
  have sd: "0 < sin dd" using ddpos by (simp add: sin_gt_zero)
  have "\<bar>lat B - lat A\<bar> \<le> 180" using la by simp
  from gcDelta_meridian [OF _ this] l la have gd: "gcDelta A B = dd"
    by (simp add: dd_def p1_def p2_def toRad_diff)
  have ub: "- (pi / 2) < u" "u < pi / 2"
  proof -
    have "0 \<le> f * dd" using f01 ddpos by simp
    then show "- (pi / 2) < u" using p1b by (simp add: u_def)
    have "f * dd \<le> 1 * dd" using f01 ddpos by (intro mult_right_mono) auto
    then show "u < pi / 2" using p2b by (simp add: u_def dd_def)
  qed
  have cu: "0 < cos u" using ub by (simp add: cos_gt_zero_pi)
  have e1: "p1 = u - f * dd" by (simp add: u_def)
  have e2: "p2 = u + (1 - f) * dd" by (simp add: u_def dd_def algebra_simps)
  have X: "sin ((1 - f) * dd) * cos p1 + sin (f * dd) * cos p2 = cos u * sin dd"
  proof -
    have "sin dd = sin ((1 - f) * dd + f * dd)" by (simp add: algebra_simps)
    also have "\<dots> = sin ((1 - f) * dd) * cos (f * dd) + cos ((1 - f) * dd) * sin (f * dd)"
      by (rule sin_add)
    finally have sdd: "sin dd = sin ((1 - f) * dd) * cos (f * dd) + cos ((1 - f) * dd) * sin (f * dd)" .
    show ?thesis unfolding e1 [THEN arg_cong, of cos] e2 [THEN arg_cong, of cos] cos_diff cos_add sdd
      by (simp add: algebra_simps)
  qed
  have Z: "sin ((1 - f) * dd) * sin p1 + sin (f * dd) * sin p2 = sin u * sin dd"
  proof -
    have "sin dd = sin ((1 - f) * dd + f * dd)" by (simp add: algebra_simps)
    also have "\<dots> = sin ((1 - f) * dd) * cos (f * dd) + cos ((1 - f) * dd) * sin (f * dd)"
      by (rule sin_add)
    finally have sdd: "sin dd = sin ((1 - f) * dd) * cos (f * dd) + cos ((1 - f) * dd) * sin (f * dd)" .
    show ?thesis unfolding e1 [THEN arg_cong, of sin] e2 [THEN arg_cong, of sin] sin_diff sin_add sdd
      by (simp add: algebra_simps)
  qed
  define lam where "lam = toRad l"
  have lamb: "- (pi / 2) < lam" "lam < pi / 2"
    using l toRad_less_iff [of "- 90" l] toRad_less_iff [of l 90] by (simp_all add: lam_def toRad_def)
  have cl: "0 < cos lam" using lamb by (simp add: cos_gt_zero_pi)
  have comb: "a / sin dd * c1 + b / sin dd * c2 = (a * c1 + b * c2) / sin dd" for a b c1 c2 :: real
    by (simp add: add_divide_distrib)
  have xx: "sin ((1 - f) * dd) / sin dd * (cos p1 * cos lam) + sin (f * dd) / sin dd * (cos p2 * cos lam)
      = cos u * cos lam"
  proof -
    have "sin ((1 - f) * dd) * (cos p1 * cos lam) + sin (f * dd) * (cos p2 * cos lam)
        = (sin ((1 - f) * dd) * cos p1 + sin (f * dd) * cos p2) * cos lam"
      by (simp add: algebra_simps)
    then show ?thesis unfolding comb X using sd by simp
  qed
  have yy: "sin ((1 - f) * dd) / sin dd * (cos p1 * sin lam) + sin (f * dd) / sin dd * (cos p2 * sin lam)
      = cos u * sin lam"
  proof -
    have "sin ((1 - f) * dd) * (cos p1 * sin lam) + sin (f * dd) * (cos p2 * sin lam)
        = (sin ((1 - f) * dd) * cos p1 + sin (f * dd) * cos p2) * sin lam"
      by (simp add: algebra_simps)
    then show ?thesis unfolding comb X using sd by simp
  qed
  have zz: "sin ((1 - f) * dd) / sin dd * sin p1 + sin (f * dd) / sin dd * sin p2 = sin u"
    unfolding comb Z using sd by simp
  have hy: "hypot (cos u * cos lam) (cos u * sin lam) = cos u"
  proof -
    have "(cos u * cos lam) * (cos u * cos lam) + (cos u * sin lam) * (cos u * sin lam)
        = (cos u)\<^sup>2 * (cos lam * cos lam + sin lam * sin lam)"
      by algebra
    also have "\<dots> = (cos u)\<^sup>2" by (simp only: sin_cos_squared_add3 mult_1_right)
    finally have "hypot (cos u * cos lam) (cos u * sin lam) = sqrt ((cos u)\<^sup>2)"
      unfolding hypot_def by (rule arg_cong)
    then show ?thesis using cu by simp
  qed
  have at: "atan2 (cos u * sin lam) (cos u * cos lam) = lam"
  proof -
    have "0 < cos u * cos lam" using cu cl by simp
    moreover have "cos u * sin lam / (cos u * cos lam) = tan lam" using cu by (simp add: tan_def)
    ultimately show ?thesis using arctan_tan [OF lamb] by (simp add: atan2_def)
  qed
  have lat_eq: "toDeg u = lat A + (lat B - lat A) * f"
    by (simp add: u_def dd_def p1_def p2_def toDeg_def toRad_def field_simps)
  have lng_eq: "fmod (toDeg lam + 540) 360 - 180 = l"
    using l by (simp add: lam_def fmod_540)
  show ?thesis
    unfolding gcPoint_def Let_def gd l
    unfolding p1_def [symmetric] p2_def [symmetric] lam_def [symmetric] f_def [symmetric]
    unfolding xx yy zz hy at atan2_sin_cos [OF ub] lat_eq lng_eq
    by simp
qed

lemma atan2_polar:
  assumes r: "0 < r" and lam: "- pi < lam" "lam \<le> pi"
  shows "atan2 (r * sin lam) (r * cos lam) = lam"
proof -
  have q: "r * sin lam / (r * cos lam) = tan lam" using r by (simp add: tan_def)
  consider (mid) "- (pi / 2) < lam" "lam < pi / 2" | (up) "pi / 2 < lam" | (down) "lam < - (pi / 2)"
    | (top) "lam = pi / 2" | (bot) "lam = - (pi / 2)"
    by linarith
  then show ?thesis
  proof cases
    case mid
    then have "0 < cos lam" by (simp add: cos_gt_zero_pi)
    then have "0 < r * cos lam" using r by simp
    then show ?thesis using arctan_tan [OF mid] q by (simp add: atan2_def)
  next
    case up
    have c: "cos lam < 0"
    proof -
      have "0 < cos (lam - pi)" using up lam by (intro cos_gt_zero_pi) auto
      then show ?thesis by (simp add: cos_diff)
    qed
    have s: "0 \<le> sin lam" using up lam by (intro sin_ge_zero) auto
    have "tan lam = tan (lam - pi)" by (metis tan_periodic_pi diff_add_cancel)
    moreover have "arctan (tan (lam - pi)) = lam - pi" using up lam by (intro arctan_tan) auto
    ultimately have "arctan (tan lam) = lam - pi" by simp
    moreover have "r * cos lam < 0" using c r by (simp add: mult_pos_neg)
    moreover have "0 \<le> r * sin lam" using s r by simp
    ultimately show ?thesis using q by (simp add: atan2_def)
  next
    case down
    have c: "cos lam < 0"
    proof -
      have "0 < cos (lam + pi)" using down lam by (intro cos_gt_zero_pi) auto
      then show ?thesis by (simp add: cos_add)
    qed
    have s: "sin lam < 0"
    proof -
      have "0 < sin (lam + pi)" using down lam by (intro sin_gt_zero) auto
      then show ?thesis by (simp add: sin_add)
    qed
    have "tan lam = tan (lam + pi)" by (simp add: tan_periodic_pi)
    moreover have "arctan (tan (lam + pi)) = lam + pi" using down lam by (intro arctan_tan) auto
    ultimately have "arctan (tan lam) = lam + pi" by simp
    moreover have "r * cos lam < 0" using c r by (simp add: mult_pos_neg)
    moreover have "r * sin lam < 0" using s r by (simp add: mult_pos_neg)
    ultimately show ?thesis using q by (simp add: atan2_def)
  next
    case top
    have "atan2 (r * 1) (r * 0) = pi / 2" using r by (simp add: atan2_def)
    then show ?thesis unfolding top by simp
  next
    case bot
    have "atan2 (r * - 1) (r * 0) = - (pi / 2)" using r by (simp add: atan2_def)
    then show ?thesis unfolding bot by simp
  qed
qed

lemma fmod_540_closed: "- 180 < l \<Longrightarrow> l \<le> 180 \<Longrightarrow> fmod (l + 540) 360 - 180 = (if l = 180 then - 180 else l)"
proof -
  assume a: "- 180 < l" "l \<le> 180"
  show ?thesis
  proof (cases "l = 180")
    case True then show ?thesis by (simp add: fmod_def)
  next
    case False
    with a fmod_540 [of l] show ?thesis by simp
  qed
qed

lemma cos_toRad_nonneg: "\<bar>x\<bar> \<le> 90 \<Longrightarrow> 0 \<le> cos (toRad x)"
proof -
  assume "\<bar>x\<bar> \<le> 90"
  then have "- 90 \<le> x" "x \<le> 90" by simp_all
  from toRad_mono [OF this(1)] toRad_mono [OF this(2)] show ?thesis
    by (intro cos_ge_zero) (simp_all add: toRad_def)
qed

lemma arcsin_min_sqrt_range:
  assumes "0 \<le> h"
  shows "0 \<le> arcsin (min 1 (sqrt h))" "arcsin (min 1 (sqrt h)) \<le> pi / 2"
proof -
  have b: "0 \<le> min 1 (sqrt h)" "min 1 (sqrt h) \<le> 1" using assms by simp_all
  from b show "0 \<le> arcsin (min 1 (sqrt h))" by (intro arcsin_nonneg) (simp del: min_less_iff_conj)
  from b show "arcsin (min 1 (sqrt h)) \<le> pi / 2" by (intro arcsin_ubound) linarith+
qed

lemma haversineM_nonneg:
  assumes "\<bar>lat a\<bar> \<le> 90" "\<bar>lat b\<bar> \<le> 90"
  shows "0 \<le> haversineM a b"
proof -
  define s1 where "s1 = sin (toRad (lat b - lat a) / 2)"
  define s2 where "s2 = sin (toRad (lng b - lng a) / 2)"
  define h where "h = s1 * s1 + cos (toRad (lat a)) * cos (toRad (lat b)) * s2 * s2"
  have "0 \<le> cos (toRad (lat a)) * cos (toRad (lat b)) * (s2 * s2)"
    using cos_toRad_nonneg [OF assms(1)] cos_toRad_nonneg [OF assms(2)] by simp
  then have "0 \<le> h" by (simp add: h_def mult.assoc)
  from arcsin_min_sqrt_range(1) [OF this] R_pos
  show ?thesis by (simp add: haversineM_def Let_def h_def s1_def s2_def)
qed

lemma gcDelta_range:
  assumes "\<bar>lat A\<bar> \<le> 90" "\<bar>lat B\<bar> \<le> 90"
  shows "0 \<le> gcDelta A B" "gcDelta A B \<le> pi"
proof -
  define a where "a = (sin ((toRad (lat B) - toRad (lat A)) / 2))\<^sup>2
     + cos (toRad (lat A)) * cos (toRad (lat B)) * (sin ((toRad (lng B) - toRad (lng A)) / 2))\<^sup>2"
  have "0 \<le> cos (toRad (lat A)) * cos (toRad (lat B)) * (sin ((toRad (lng B) - toRad (lng A)) / 2))\<^sup>2"
    using cos_toRad_nonneg [OF assms(1)] cos_toRad_nonneg [OF assms(2)] by simp
  then have "0 \<le> a" by (simp add: a_def)
  from arcsin_min_sqrt_range [OF this]
  show "0 \<le> gcDelta A B" "gcDelta A B \<le> pi" by (simp_all add: gcDelta_def Let_def a_def)
qed

text \<open>The last point of the interpolation is the end point.\<close>
lemma gcPoint_last:
  assumes d: "gcDelta A B \<noteq> 0" "gcDelta A B \<noteq> pi"
    and A: "\<bar>lat A\<bar> \<le> 90"
    and B: "- 180 \<le> lng B" "lng B < 180" "- 90 < lat B" "lat B < 90" and n: "0 < n"
  shows "gcPoint A B n n = B"
proof -
  define p2 where "p2 = toRad (lat B)"
  define l2 where "l2 = toRad (lng B)"
  define dd where "dd = gcDelta A B"
  have "\<bar>lat B\<bar> \<le> 90" using B by simp
  from gcDelta_range [OF A this] d have "0 < dd" "dd < pi" by (simp_all add: dd_def)
  then have sd: "sin dd \<noteq> 0" using sin_gt_zero [of dd] by simp
  have p2b: "- (pi / 2) < p2" "p2 < pi / 2"
    using B toRad_less_iff [of "- 90" "lat B"] toRad_less_iff [of "lat B" 90] by (simp_all add: p2_def toRad_def)
  have l2b: "- pi \<le> l2" "l2 < pi"
    using B toRad_less_iff [of "lng B" 180] toRad_mono [of "- 180" "lng B"] by (simp_all add: l2_def toRad_def)
  have cp: "0 < cos p2" using p2b by (simp add: cos_gt_zero_pi)
  have hy: "hypot (cos p2 * cos l2) (cos p2 * sin l2) = cos p2"
  proof -
    have "(cos p2 * cos l2) * (cos p2 * cos l2) + (cos p2 * sin l2) * (cos p2 * sin l2)
        = (cos p2)\<^sup>2 * (cos l2 * cos l2 + sin l2 * sin l2)"
      by algebra
    also have "\<dots> = (cos p2)\<^sup>2" by (simp only: sin_cos_squared_add3 mult_1_right)
    finally have "hypot (cos p2 * cos l2) (cos p2 * sin l2) = sqrt ((cos p2)\<^sup>2)"
      unfolding hypot_def by (rule arg_cong)
    then show ?thesis using cp by simp
  qed
  have lng_eq: "fmod (toDeg (atan2 (cos p2 * sin l2) (cos p2 * cos l2)) + 540) 360 - 180 = lng B"
  proof (cases "l2 = - pi")
    case True
    then have "toRad (lng B) = toRad (- 180)" by (simp add: l2_def toRad_def)
    then have "lng B = - 180" using toRad_less_iff [of "lng B" "- 180"] toRad_less_iff [of "- 180" "lng B"]
      by linarith
    moreover have "atan2 (cos p2 * sin l2) (cos p2 * cos l2) = pi"
      using True cp by (simp add: atan2_def)
    ultimately show ?thesis by (simp add: toDeg_def fmod_def)
  next
    case False
    with l2b have "- pi < l2" "l2 \<le> pi" by simp_all
    from atan2_polar [OF cp this] have "atan2 (cos p2 * sin l2) (cos p2 * cos l2) = l2" .
    then show ?thesis using B by (simp add: l2_def fmod_540)
  qed
  show ?thesis
    unfolding gcPoint_def Let_def 
    unfolding p2_def [symmetric] l2_def [symmetric] dd_def [symmetric]
    using n sd hy lng_eq atan2_sin_cos [OF p2b] by (simp add: p2_def)
qed

lemma gcPoints_meridian:
  assumes l: "lng A = l" "lng B = l" "- 90 < l" "l < 90"
    and la: "- 90 < lat A" "lat A < lat B" "lat B < 90"
    and n: "0 < n"
  shows "gcPoints A B n =
           map (\<lambda>i. \<lparr>lng = l, lat = lat A + (lat B - lat A) * (real i / real n)\<rparr>) [0..<n + 1]"
proof -
  have "\<bar>lat B - lat A\<bar> \<le> 180" using la by simp
  from gcDelta_meridian [OF _ this] l la have "gcDelta A B = toRad (lat B - lat A)" by simp
  moreover have "0 < toRad (lat B - lat A)" using la toRad_less_iff [of 0 "lat B - lat A"] by simp
  ultimately have "gcDelta A B \<noteq> 0" by simp
  then show ?thesis
    using gcPoint_meridian [OF l la _ n] by (simp add: gcPoints_def)
qed

subsection \<open>The land membership oracle\<close>

lemma hexRing_origin_1:
  "hexRing (0, 0) (Suc 0) = [(-1, 0), (-1, 1), (0, -1), (0, 0), (0, 1), (1, -1), (1, 0)]"
  by (simp add: hexRing_def upto.simps)

lemma hexRing_mono: "set (hexRing c k) \<subseteq> set (hexRing c (Suc k))"
  by (auto simp: hexRing_def)

lemma hexRing_self: "count_list (hexRing c (Suc 0)) c = 1"
  by (cases c) (simp add: hexRing_def upto.simps)

lemma filter_split_self:
  "length (filter P xs) =
     length (filter P (filter (\<lambda>x. x \<noteq> c) xs)) + (if P c then count_list xs c else 0)"
  by (induction xs) auto

text \<open>What the noise filter computes, on a grid whose ring of radius one holds the cell itself
  once (as the rings of h3-js do): the cell's own hit is counted, so the threshold on the
  neighbours proper is one less than \<open>neighborThresh\<close>.\<close>

lemma noiseTolerant_neighbors:
  assumes "count_list (kRing h cell 1) cell = 1"
  shows "makeHasLandCellNoiseTolerant h hasLandCell t cell \<longleftrightarrow>
           hasLandCell cell \<and> t - 1 \<le> length (filter hasLandCell (neighbors h cell))"
  using assms filter_split_self [of hasLandCell "kRing h cell 1" cell]
  by (auto simp: makeHasLandCellNoiseTolerant_def neighbors_def)

text \<open>
  \<^bold>\<open>C3\<close>. The noise-tolerant test run on the cell \<open>(0, 0)\<close> of the flat grid, where the base
  test is positive for the cell itself and for exactly two of its six neighbours: with the
  threshold 3 the filter answers "land". The ring of radius one contains the cell, so the
  cell's own hit is counted towards the threshold.
\<close>

theorem noiseTolerant_counts_own_cell:
  "makeHasLandCellNoiseTolerant hexGrid (\<lambda>c. c \<in> {(0, 0), (1, 0), (0, 1)}) 3 (0, 0)
   \<and> length (neighbors hexGrid (0, 0)) = 6
   \<and> length (filter (\<lambda>c. c \<in> {(0, 0), (1, 0), (0, 1)}) (neighbors hexGrid (0, 0))) = 2"
  by (simp add: makeHasLandCellNoiseTolerant_def neighbors_def hexGrid_def hexRing_origin_1)

lemma makeIsCellBlocked_iff:
  "makeIsCellBlocked h hl k cell \<longleftrightarrow>
     makeHasLandCellNoiseTolerant h hl 3 cell \<or>
     (0 < k \<and> (\<exists>nb \<in> set (kRing h cell k). makeHasLandCellNoiseTolerant h hl 3 nb))"
  by (auto simp: makeIsCellBlocked_def Let_def list_ex_iff)

lemma makeIsCellBlocked_bbox_iff:
  "makeIsCellBlocked_bbox h hl k cell \<longleftrightarrow>
     hl cell \<or> (0 < k \<and> (\<exists>nb \<in> set (kRing h cell k). hl nb))"
  by (auto simp: makeIsCellBlocked_bbox_def list_ex_iff)

text \<open>
  \<^bold>\<open>C6\<close>. Dilation monotonicity. On a grid whose rings are nested (the ring of radius \<open>k\<close>
  lies inside the ring of radius \<open>k + 1\<close>, which holds for the filled disks of h3), a cell
  that is unblocked with \<open>dilateKRings = k + 1\<close> is unblocked with \<open>dilateKRings = k\<close>, for
  the same land test. This holds for the blocked-test with the noise filter and for the older
  one without it.
\<close>

theorem dilation_monotone:
  assumes "set (kRing h cell k) \<subseteq> set (kRing h cell (Suc k))"
  shows "(\<not> makeIsCellBlocked h hasLandCell (Suc k) cell \<longrightarrow> \<not> makeIsCellBlocked h hasLandCell k cell)
       \<and> (\<not> makeIsCellBlocked_bbox h hasLandCell (Suc k) cell
            \<longrightarrow> \<not> makeIsCellBlocked_bbox h hasLandCell k cell)"
  using assms unfolding makeIsCellBlocked_iff makeIsCellBlocked_bbox_iff by blast

theorem dilation_monotone_witness:
  "set (kRing hexGrid (0, 0) 1) \<subseteq> set (kRing hexGrid (0, 0) (Suc 1))
   \<and> \<not> makeIsCellBlocked hexGrid (\<lambda>c. 3 \<le> snd c) (Suc 1) (0, 0)
   \<and> \<not> makeIsCellBlocked hexGrid (\<lambda>c. 3 \<le> snd c) 1 (0, 0)
   \<and> \<not> makeIsCellBlocked_bbox hexGrid (\<lambda>c. 3 \<le> snd c) (Suc 1) (0, 0)
   \<and> \<not> makeIsCellBlocked_bbox hexGrid (\<lambda>c. 3 \<le> snd c) 1 (0, 0)"
proof -
  have sub: "set (kRing hexGrid (0, 0) 1) \<subseteq> set (kRing hexGrid (0, 0) (Suc 1))"
    by (simp add: hexGrid_def hexRing_mono)
  have a: "\<not> makeIsCellBlocked hexGrid (\<lambda>c. 3 \<le> snd c) (Suc 1) (0, 0)"
    by (auto simp: makeIsCellBlocked_iff makeHasLandCellNoiseTolerant_def hexGrid_def hexRing_def)
  have b: "\<not> makeIsCellBlocked_bbox hexGrid (\<lambda>c. 3 \<le> snd c) (Suc 1) (0, 0)"
    by (auto simp: makeIsCellBlocked_bbox_iff hexGrid_def hexRing_def)
  from dilation_monotone [OF sub, of "\<lambda>c. 3 \<le> snd c"] a b sub show ?thesis by blast
qed

subsection \<open>The collision checker\<close>

lemma map_nth_tl: "map ((!) xs) [Suc 0..<length xs] = tl xs"
proof (cases xs)
  case Nil then show ?thesis by simp
next
  case (Cons x ys)
  have "map (\<lambda>i. (x # ys) ! i) [Suc 0..<Suc (length ys)] = map (\<lambda>i. ys ! i) [0..<length ys]"
    unfolding map_Suc_upt [symmetric] by (simp add: map_upt_Suc del: upt_Suc)
  then show ?thesis using Cons by (simp add: map_nth)
qed


lemma firstLand_None_iff:
  "firstLand c ps = None \<longleftrightarrow> (\<forall>p \<in> set ps. \<not> pointIsLand (lng p) (lat p) c)"
  by (induction ps) auto


lemma chordSamples_eq:
  "chordSamples A B c =
     tl (gcPoints A B (sampleCount (haversineM A B) (case sampleMeters c of None \<Rightarrow> 250 | Some s \<Rightarrow> s)))"
  by (simp add: chordSamples_def Let_def map_nth_tl)

lemma chordCrossesLand_iff:
  "chordCrossesLand A B c \<longleftrightarrow> (\<exists>p \<in> set (chordSamples A B c). pointIsLand (lng p) (lat p) c)"
  using firstLand_None_iff [of c "chordSamples A B c"] by (auto simp: chordCrossesLand_def)


lemma gridPt_simps: "lng (gridPt q) = 1 / 2000" "lat (gridPt q) = (of_int q + 1 / 2) / 1000"
  by (simp_all add: gridPt_def)

lemma haversineM_gridPt:
  assumes "a \<le> b" "b - a \<le> 180000"
  shows "haversineM (gridPt a) (gridPt b) = R * toRad (of_int (b - a) / 1000)"
proof -
  have d: "lat (gridPt b) - lat (gridPt a) = of_int (b - a) / 1000"
    by (simp add: gridPt_simps field_simps)
  have "\<bar>lat (gridPt b) - lat (gridPt a)\<bar> \<le> 180" unfolding d using assms by simp
  from haversineM_meridian [OF _ this] show ?thesis unfolding d using assms by (simp add: gridPt_simps)
qed

lemma gcPoints_gridPt:
  assumes "a < b" "- 90000 \<le> a" "b < 90000 - 1" "0 < n"
  shows "gcPoints (gridPt a) (gridPt b) n =
     map (\<lambda>i. \<lparr>lng = 1 / 2000, lat = (of_int a + 1 / 2 + of_int (b - a) * (real i / real n)) / 1000\<rparr>) [0..<n + 1]"
proof -
  have 1: "- 90 < lat (gridPt a)" using assms by (simp add: gridPt_simps)
  have 2: "lat (gridPt a) < lat (gridPt b)" using assms by (simp add: gridPt_simps)
  have 3: "lat (gridPt b) < 90" using assms by (simp add: gridPt_simps)
  have "gcPoints (gridPt a) (gridPt b) n =
     map (\<lambda>i. \<lparr>lng = 1 / 2000, lat = lat (gridPt a) + (lat (gridPt b) - lat (gridPt a)) * (real i / real n)\<rparr>) [0..<n + 1]"
    by (rule gcPoints_meridian [OF _ _ _ _ 1 2 3 assms(4)]) (simp_all add: gridPt_simps)
  also have "\<dots> = map (\<lambda>i. \<lparr>lng = 1 / 2000, lat = (of_int a + 1 / 2 + of_int (b - a) * (real i / real n)) / 1000\<rparr>) [0..<n + 1]"
  proof -
    have "lat (gridPt a) + (lat (gridPt b) - lat (gridPt a)) * t
            = (of_int a + 1 / 2 + of_int (b - a) * t) / 1000" for t :: real
      by (simp add: gridPt_simps field_simps)
    then show ?thesis by (simp only:)
  qed
  finally show ?thesis .
qed

lemma sampleCount_48: "0 < s \<Longrightarrow> d \<le> 48 * s \<Longrightarrow> sampleCount d s = 48"
proof -
  assume a: "0 < s" "d \<le> 48 * s"
  then have "d / s \<le> 48" by (simp add: field_simps)
  then have "\<lceil>d / s\<rceil> \<le> 48" by (simp add: ceiling_le_iff)
  then show ?thesis by (simp add: sampleCount_def)
qed

lemma tl_map_upt: "tl (map f [0..<n + 1]) = map f [1..<n + 1]"
  by (simp add: map_tl [symmetric] tl_upt del: upt_Suc)

lemma pointIsLand_gridCtx:
  "pointIsLand lg la (gridCtx blk s) = blk (\<lfloor>la * 1000\<rfloor>, \<lfloor>lg * 1000\<rfloor>)"
  by (simp add: pointIsLand_def gridCtx_def hexGrid_def)

text \<open>The samples of a chord between two cell centres of the meridian that is short enough
  for the floor of 48 samples.\<close>
lemma chordSamples_gridPt:
  assumes "a < b" "- 90000 \<le> a" "b < 90000 - 1" "0 < s"
    and "R * toRad (of_int (b - a) / 1000) \<le> 48 * s"
  shows "chordSamples (gridPt a) (gridPt b) (gridCtx blk s) =
     map (\<lambda>i. \<lparr>lng = 1 / 2000, lat = (of_int a + 1 / 2 + of_int (b - a) * (real i / 48)) / 1000\<rparr>) [1..<49]"
proof -
  have "haversineM (gridPt a) (gridPt b) = R * toRad (of_int (b - a) / 1000)"
    using assms by (intro haversineM_gridPt) simp_all
  then have n: "sampleCount (haversineM (gridPt a) (gridPt b)) s = 48"
    using assms by (simp add: sampleCount_48)
  have "chordSamples (gridPt a) (gridPt b) (gridCtx blk s) = tl (gcPoints (gridPt a) (gridPt b) 48)"
    by (simp add: chordSamples_eq gridCtx_def n)
  also have "\<dots> = tl (map (\<lambda>i. \<lparr>lng = 1 / 2000, lat = (of_int a + 1 / 2 + of_int (b - a) * (real i / real 48)) / 1000\<rparr>) [0..<48 + 1])"
    using assms by (subst gcPoints_gridPt) simp_all
  also have "\<dots> = map (\<lambda>i. \<lparr>lng = 1 / 2000, lat = (of_int a + 1 / 2 + of_int (b - a) * (real i / real 48)) / 1000\<rparr>) [1..<48 + 1]"
    by (rule tl_map_upt)
  finally show ?thesis by simp
qed

lemma chordCrossesLand_gridPt:
  assumes "a < b" "- 90000 \<le> a" "b < 90000 - 1" "0 < s"
    and "R * toRad (of_int (b - a) / 1000) \<le> 48 * s"
  shows "chordCrossesLand (gridPt a) (gridPt b) (gridCtx blk s) \<longleftrightarrow>
     (\<exists>i \<in> {1..48}. blk (\<lfloor>of_int a + 1 / 2 + of_int (b - a) * (real i / 48)\<rfloor>, 0))"
proof -
  have p: "pointIsLand (1 / 2000) (Y / 1000) (gridCtx blk s) = blk (\<lfloor>Y\<rfloor>, 0)" for Y :: real
    by (simp add: pointIsLand_gridCtx)
  have "set [1..<49] = {1..48::nat}" by auto
  then show ?thesis
    unfolding chordCrossesLand_iff chordSamples_gridPt [OF assms] set_map bex_simps(7) 
    by (simp only: point.simps p)
qed

lemma R_toRad_small: "0 \<le> x \<Longrightarrow> x \<le> 1 / 20 \<Longrightarrow> R * toRad x \<le> 48 * 250"
proof -
  assume a: "0 \<le> x" "x \<le> 1 / 20"
  have "x * pi \<le> (1 / 20) * 4"
    using a pi_less_4 by (intro mult_mono) simp_all
  then have "R * (x * pi) \<le> R * ((1 / 20) * 4)"
    using R_pos by (intro mult_left_mono) simp_all
  then have "R * (x * pi) / 180 \<le> R * ((1 / 20) * 4) / 180"
    by (rule divide_right_mono) simp
  also have "\<dots> \<le> 48 * 250" by (simp add: R_def)
  finally show ?thesis by (simp add: toRad_def)
qed

lemma floor_half_48: "1 \<le> i \<Longrightarrow> i \<le> 48 \<Longrightarrow> \<lfloor>(0::real) + 1 / 2 + of_int (48 - 0) * (real i / 48)\<rfloor> = int i"
  by (simp add: floor_eq_iff)


lemma chordCrossesLand_bbox_iff:
  "chordCrossesLand_bbox a b c \<longleftrightarrow>
     (\<exists>i \<in> {1..nat (max 1 \<lceil>haversineM a b / (case sampleMeters c of None \<Rightarrow> 500 | Some s \<Rightarrow> s)\<rceil>)}.
        pointIsLand (lng (lerp a b (real i / real (nat (max 1 \<lceil>haversineM a b / (case sampleMeters c of None \<Rightarrow> 500 | Some s \<Rightarrow> s)\<rceil>)))))
                    (lat (lerp a b (real i / real (nat (max 1 \<lceil>haversineM a b / (case sampleMeters c of None \<Rightarrow> 500 | Some s \<Rightarrow> s)\<rceil>))))) c)"
proof -
  have "set [1..<n + 1] = {1..n}" for n :: nat by auto
  then show ?thesis
    by (simp add: chordCrossesLand_bbox_def Let_def list_ex_iff pointIsLand_def lerp_def)
qed

lemma gcPoints_length: "0 < n \<Longrightarrow> 2 \<le> length (gcPoints A B n)"
  by (simp add: gcPoints_def)

lemma gcPoints_last:
  assumes "gcDelta A B = 0 \<or>
           gcDelta A B \<noteq> pi \<and> \<bar>lat A\<bar> \<le> 90 \<and> - 180 \<le> lng B \<and> lng B < 180 \<and> - 90 < lat B \<and> lat B < 90"
    and "0 < n"
  shows "last (gcPoints A B n) = B"
proof (cases "gcDelta A B = 0")
  case True then show ?thesis by (simp add: gcPoints_def)
next
  case False
  with assms have "gcPoint A B n n = B" by (intro gcPoint_last) simp_all
  with False show ?thesis by (simp add: gcPoints_def last_map del: upt_Suc) 
qed

lemma last_tl: "2 \<le> length xs \<Longrightarrow> last (tl xs) = last xs"
  by (cases xs) auto

lemma sampleCount_pos: "0 < sampleCount d s"
  by (simp add: sampleCount_def)

text \<open>
  \<^bold>\<open>C9\<close>, as amended. \<^verbatim>\<open>chordCrossesLand\<close> never tests the start point itself. Its samples
  are the points of the interpolation from index 1 on, the last of them being the last point of
  the interpolation, which is \<open>B\<close> itself (for a valid, non-antipodal pair). The result is
  determined by the cells of these samples alone: two blocked-tests that agree on them give the
  same answer, whatever they say about other cells; and when every sample lies in an unblocked
  cell the chord is reported clear, also when the cell of \<open>A\<close> is blocked. The cell of \<open>A\<close>
  does count as soon as one of the samples lies in it: the chord is then reported as crossing
  land when that cell is blocked. The older variant samples the fractions \<open>i / n\<close> for
  \<open>i = 1, \<dots>, n\<close> as well.
\<close>

theorem chordCrossesLand_skips_start:
  "chordSamples A B c = tl (gcPoints A B (sampleCount (haversineM A B) (case sampleMeters c of None \<Rightarrow> 250 | Some s \<Rightarrow> s)))
   \<and> chordSamples A B c \<noteq> []
   \<and> (gcDelta A B = 0 \<or>
        gcDelta A B \<noteq> pi \<and> \<bar>lat A\<bar> \<le> 90 \<and> - 180 \<le> lng B \<and> lng B < 180 \<and> - 90 < lat B \<and> lat B < 90
      \<longrightarrow> last (chordSamples A B c) = B)
   \<and> (chordCrossesLand A B c \<longleftrightarrow> (\<exists>p \<in> set (chordSamples A B c). pointIsLand (lng p) (lat p) c))
   \<and> ((\<forall>p \<in> set (chordSamples A B c). \<not> pointIsLand (lng p) (lat p) c) \<longrightarrow> \<not> chordCrossesLand A B c)
   \<and> (h3 c' = h3 c \<and> h3Res c' = h3Res c \<and> sampleMeters c' = sampleMeters c
        \<and> (\<forall>p \<in> set (chordSamples A B c).
              isCellBlocked c' (geoToH3 (h3 c) (lat p) (lng p) (h3Res c))
                = isCellBlocked c (geoToH3 (h3 c) (lat p) (lng p) (h3Res c)))
      \<longrightarrow> chordCrossesLand A B c' = chordCrossesLand A B c)
   \<and> (isCellBlocked c (geoToH3 (h3 c) (lat A) (lng A) (h3Res c))
        \<and> (\<exists>p \<in> set (chordSamples A B c).
              geoToH3 (h3 c) (lat p) (lng p) (h3Res c) = geoToH3 (h3 c) (lat A) (lng A) (h3Res c))
      \<longrightarrow> chordCrossesLand A B c)
   \<and> (chordCrossesLand_bbox A B c \<longleftrightarrow>
        (\<exists>i \<in> {1..nat (max 1 \<lceil>haversineM A B / (case sampleMeters c of None \<Rightarrow> 500 | Some s \<Rightarrow> s)\<rceil>)}.
           pointIsLand (lng (lerp A B (real i / real (nat (max 1 \<lceil>haversineM A B / (case sampleMeters c of None \<Rightarrow> 500 | Some s \<Rightarrow> s)\<rceil>)))))
                       (lat (lerp A B (real i / real (nat (max 1 \<lceil>haversineM A B / (case sampleMeters c of None \<Rightarrow> 500 | Some s \<Rightarrow> s)\<rceil>))))) c))"
proof -
  define n where "n = sampleCount (haversineM A B) (case sampleMeters c of None \<Rightarrow> 250 | Some s \<Rightarrow> s)"
  have eq: "chordSamples A B c = tl (gcPoints A B n)" by (simp add: chordSamples_eq n_def)
  have npos: "0 < n" by (simp add: n_def sampleCount_pos)
  have ne: "chordSamples A B c \<noteq> []"
    using gcPoints_length [OF npos, of A B] unfolding eq by (cases "gcPoints A B n") auto
  have lastB: "last (chordSamples A B c) = B"
    if "gcDelta A B = 0 \<or>
        gcDelta A B \<noteq> pi \<and> \<bar>lat A\<bar> \<le> 90 \<and> - 180 \<le> lng B \<and> lng B < 180 \<and> - 90 < lat B \<and> lat B < 90"
    unfolding eq using gcPoints_last [OF that npos] last_tl [OF gcPoints_length [OF npos], of A B]
    by simp
  have indep: "chordCrossesLand A B c' = chordCrossesLand A B c"
    if "h3 c' = h3 c \<and> h3Res c' = h3Res c \<and> sampleMeters c' = sampleMeters c
        \<and> (\<forall>p \<in> set (chordSamples A B c).
              isCellBlocked c' (geoToH3 (h3 c) (lat p) (lng p) (h3Res c))
                = isCellBlocked c (geoToH3 (h3 c) (lat p) (lng p) (h3Res c)))"
  proof -
    from that have "chordSamples A B c' = chordSamples A B c" by (simp add: chordSamples_def)
    with that show ?thesis by (simp add: chordCrossesLand_iff pointIsLand_def)
  qed
  have own: "chordCrossesLand A B c"
    if "isCellBlocked c (geoToH3 (h3 c) (lat A) (lng A) (h3Res c))
        \<and> (\<exists>p \<in> set (chordSamples A B c).
              geoToH3 (h3 c) (lat p) (lng p) (h3Res c) = geoToH3 (h3 c) (lat A) (lng A) (h3Res c))"
  proof -
    from that obtain p where p: "p \<in> set (chordSamples A B c)"
      and e: "geoToH3 (h3 c) (lat p) (lng p) (h3Res c) = geoToH3 (h3 c) (lat A) (lng A) (h3Res c)"
      by blast
    from that have "pointIsLand (lng p) (lat p) c" by (simp add: pointIsLand_def e)
    with p show ?thesis unfolding chordCrossesLand_iff by blast
  qed
  show ?thesis
    using eq ne lastB indep own chordCrossesLand_iff [of A B c] chordCrossesLand_bbox_iff [of A B c]
    unfolding n_def by blast
qed

text \<open>
  \<^bold>\<open>C9\<close>, as stated, fails: the result can depend on whether the cell of \<open>A\<close> is blocked.
  On the flat grid, the chord from the centre of the cell \<open>(0, 0)\<close> to the centre of the next
  cell to the north has 48 samples, and the first of them still lies in the cell of \<open>A\<close>. With
  that cell as the only blocked one the chord is reported as crossing land; with no cell
  blocked it is reported clear.
\<close>

theorem chordCrossesLand_start_cell_counts:
  "geoToH3 hexGrid (lat (gridPt 0)) (lng (gridPt 0)) 9 = (0, 0)
   \<and> chordCrossesLand (gridPt 0) (gridPt 1) (gridCtx (\<lambda>c. c = (0, 0)) 250)
   \<and> \<not> chordCrossesLand (gridPt 0) (gridPt 1) (gridCtx (\<lambda>c. False) 250)"
proof -
  have cell: "geoToH3 hexGrid (lat (gridPt 0)) (lng (gridPt 0)) 9 = (0, 0)"
    by (simp add: hexGrid_def gridPt_simps)
  have small: "R * toRad (real_of_int (1 - 0) / 1000) \<le> 48 * 250"
    by (rule R_toRad_small) simp_all
  have "\<lfloor>(0::real) + 1 / 2 + of_int (1 - 0) * (real 1 / 48)\<rfloor> = 0" by (simp add: floor_eq_iff)
  then have "\<exists>i \<in> {1..48::nat}. (\<lfloor>(0::real) + 1 / 2 + of_int (1 - 0) * (real i / 48)\<rfloor>, 0::int) = (0, 0)"
    by (intro bexI [of _ 1]) simp_all
  then have blocked: "chordCrossesLand (gridPt 0) (gridPt 1) (gridCtx (\<lambda>c. c = (0, 0)) 250)"
    using small by (subst chordCrossesLand_gridPt) simp_all
  have clear: "\<not> chordCrossesLand (gridPt 0) (gridPt 1) (gridCtx (\<lambda>c. False) 250)"
    using small by (subst chordCrossesLand_gridPt) simp_all
  from cell blocked clear show ?thesis by simp
qed

text \<open>The amended claim at a chord along the meridian of the flat grid whose start lies in the
  only blocked cell: none of the 48 samples lies in that cell, and the chord is reported
  clear.\<close>

theorem chordCrossesLand_skips_start_witness:
  "pointIsLand (lng (gridPt 0)) (lat (gridPt 0)) (gridCtx (\<lambda>c. c = (0, 0)) 250)
   \<and> length (chordSamples (gridPt 0) (gridPt 48) (gridCtx (\<lambda>c. c = (0, 0)) 250)) = 48
   \<and> last (chordSamples (gridPt 0) (gridPt 48) (gridCtx (\<lambda>c. c = (0, 0)) 250)) = gridPt 48
   \<and> \<not> chordCrossesLand (gridPt 0) (gridPt 48) (gridCtx (\<lambda>c. c = (0, 0)) 250)"
proof -
  let ?c = "gridCtx (\<lambda>c. c = (0, 0)) 250"
  have small: "R * toRad (real_of_int (48 - 0) / 1000) \<le> 48 * 250"
    by (rule R_toRad_small) simp_all
  have A: "pointIsLand (lng (gridPt 0)) (lat (gridPt 0)) ?c"
    by (simp add: pointIsLand_gridCtx gridPt_simps)
  have len: "length (chordSamples (gridPt 0) (gridPt 48) ?c) = 48"
    using small by (subst chordSamples_gridPt) simp_all
  have "\<not> (\<exists>i \<in> {1..48}. (\<lfloor>(0::real) + 1 / 2 + of_int (48 - 0) * (real i / 48)\<rfloor>, 0::int) = (0, 0))"
    by (auto simp: floor_eq_iff)
  then have clear: "\<not> chordCrossesLand (gridPt 0) (gridPt 48) ?c"
    using small by (subst chordCrossesLand_gridPt) simp_all
  have d: "gcDelta (gridPt 0) (gridPt 48) = toRad (48 / 1000)"
    by (subst gcDelta_meridian) (simp_all add: gridPt_simps)
  have dpi: "gcDelta (gridPt 0) (gridPt 48) \<noteq> pi"
    unfolding d toRad_def using pi_gt_zero by (simp del: pi_gt_zero)
  have rng: "gcDelta (gridPt 0) (gridPt 48) = 0 \<or>
        gcDelta (gridPt 0) (gridPt 48) \<noteq> pi \<and> \<bar>lat (gridPt 0)\<bar> \<le> 90 \<and> - 180 \<le> lng (gridPt 48)
        \<and> lng (gridPt 48) < 180 \<and> - 90 < lat (gridPt 48) \<and> lat (gridPt 48) < 90"
    using dpi by (simp add: gridPt_simps)
  from chordCrossesLand_skips_start [of "gridPt 0" "gridPt 48" ?c ?c] rng
  have "last (chordSamples (gridPt 0) (gridPt 48) ?c) = gridPt 48" by blast
  with A len clear show ?thesis by simp
qed






lemma chordCrossesLand_grid_250:
  assumes "a < b" "b - a \<le> 50" "- 90000 \<le> a" "b < 90000 - 1"
  shows "chordCrossesLand (gridPt a) (gridPt b) (gridCtx blk 250) \<longleftrightarrow>
     (\<exists>i \<in> {1..48}. blk (\<lfloor>of_int a + 1 / 2 + of_int (b - a) * (real i / 48)\<rfloor>, 0))"
proof -
  have "R * toRad (real_of_int (b - a) / 1000) \<le> 48 * 250"
    using assms by (intro R_toRad_small) simp_all
  then show ?thesis using assms by (intro chordCrossesLand_gridPt) simp_all
qed













lemma autoroute_short: "length waypoints < 2 \<Longrightarrow> autoroute leg waypoints = Inr []"
proof -
  assume "length waypoints < 2"
  then have "length waypoints - 1 = 0" by simp
  then show ?thesis by (simp add: autoroute_def)
qed

lemma handleRoute_route_msgs:
  "RouteMsg cs \<in> set (fst (handleRoute f w pts opts)) \<Longrightarrow> 2 \<le> length cs"
  by (auto simp: handleRoute_def calibrateBloom_def Let_def
           split: option.splits if_splits sum.splits prod.splits)

text \<open>
  \<^bold>\<open>C8\<close>. A route request with fewer than two waypoints (or with none) fails before any
  search begins: the handler posts one error message and nothing else, it does not calibrate
  the filter (the state is unchanged), and it does not call the router (the outcome is the same
  for every router). The message is "Need at least two points" whenever the modules could be
  loaded. No request, whatever its waypoints, is answered with a route of fewer than two
  coordinates.
\<close>

theorem route_needs_two_points:
  assumes "pts = None \<or> length (the pts) < 2"
  shows "(\<exists>e. handleRoute autorouteFn w pts opts = ([ErrorMsg e], w)
             \<and> (depsError w = None \<longrightarrow> e = ''Need at least two points''))
       \<and> handleRoute autorouteFn' w pts opts = handleRoute autorouteFn w pts opts
       \<and> (\<forall>ps cs. RouteMsg cs \<in> set (fst (handleRoute autorouteFn w ps opts)) \<longrightarrow> 2 \<le> length cs)"
proof -
  have "\<exists>e. handleRoute f w pts opts = ([ErrorMsg e], w)
             \<and> (depsError w = None \<longrightarrow> e = ''Need at least two points'')" for f
    using assms by (auto simp: handleRoute_def split: option.splits)
  moreover have "handleRoute autorouteFn' w pts opts = handleRoute autorouteFn w pts opts"
    using assms by (auto simp: handleRoute_def split: option.splits)
  ultimately show ?thesis using handleRoute_route_msgs by blast
qed

text \<open>The claim for a request with a single waypoint, on a worker with a loaded filter and a
  router that would answer with an empty route.\<close>

theorem route_needs_two_points_witness:
  "length (the (Some [(0, 0)] :: coords option)) < 2
   \<and> handleRoute (\<lambda>hl ps opts. autoroute (\<lambda>wps i rc. Inr rc) ps)
        \<lparr>w_h3 = hexGrid, landBF = Some (\<lambda>c. False), bfMode = UnknownMode,
         bfCalibratedForRes = None, depsError = None\<rparr>
        (Some [(0, 0)])
        \<lparr>ro_h3Res = 9, ro_dilateKRings = 1, ro_padDeg = 3, ro_sampleMeters = 350,
         ro_corridorStepDeg = 2 / 25, landOverrides = []\<rparr>
      = ([ErrorMsg ''Need at least two points''],
         \<lparr>w_h3 = hexGrid, landBF = Some (\<lambda>c. False), bfMode = UnknownMode,
          bfCalibratedForRes = None, depsError = None\<rparr>)"
proof -
  let ?w = "\<lparr>w_h3 = hexGrid, landBF = Some (\<lambda>c. False), bfMode = UnknownMode,
         bfCalibratedForRes = None, depsError = None\<rparr>"
  let ?o = "\<lparr>ro_h3Res = 9, ro_dilateKRings = 1, ro_padDeg = 3, ro_sampleMeters = 350,
         ro_corridorStepDeg = 2 / 25, landOverrides = []\<rparr>"
  have a: "Some [(0, 0)] = (None :: coords option) \<or> length (the (Some [(0, 0)] :: coords option)) < 2" by simp
  from route_needs_two_points [OF a, of "\<lambda>hl ps opts. autoroute (\<lambda>wps i rc. Inr rc) ps" ?w ?o]
  show ?thesis by auto
qed

declare landAwareFallback.simps [simp del]

lemma fanRaw_total:
  assumes "0 < step"
  shows "\<exists>r. fanRaw step b raw = Some r"
proof (induction "nat \<lceil>(360 - b) / step\<rceil>" arbitrary: b raw rule: less_induct)
  case less
  show ?case
  proof (cases "b < 360")
    case False
    then show ?thesis by (subst fanRaw.simps) simp
  next
    case True
    have e: "(360 - (b + step)) / step = (360 - b) / step - 1" using assms by (simp add: field_simps)
    have "0 < (360 - b) / step" using True assms by simp
    then have "0 < \<lceil>(360 - b) / step\<rceil>" by simp
    then have "nat \<lceil>(360 - (b + step)) / step\<rceil> < nat \<lceil>(360 - b) / step\<rceil>"
      unfolding e by simp
    from less [OF this] obtain r where "fanRaw step (b + step) (raw @ [b]) = Some r" by blast
    with True show ?thesis by (subst fanRaw.simps) simp
  qed
qed

lemma bearingsFanAround_total:
  "0 < step \<Longrightarrow> \<exists>bs. bearingsFanAround center step widen = Some bs"
  using fanRaw_total [of step 0 "[]"] by (auto simp: bearingsFanAround_def Let_def)

lemma trySingleDetour_total:
  assumes "case bearingStep c of None \<Rightarrow> True | Some s \<Rightarrow> 0 < s"
  shows "\<exists>r. trySingleDetour A B c = Some r"
proof -
  have "0 < (case bearingStep c of None \<Rightarrow> 10 | Some s \<Rightarrow> s)"
    using assms by (simp split: option.splits)
  from bearingsFanAround_total [OF this] show ?thesis
    by (auto simp: trySingleDetour_def Let_def split: option.splits)
qed

lemma trySingleDetour_Some:
  assumes "trySingleDetour A B c = Some (Some ps)"
  shows "\<exists>C. ps = [A, C, B] \<and> \<not> pointIsLand (lng C) (lat C) c
            \<and> \<not> chordCrossesLand A C c \<and> \<not> chordCrossesLand C B c"
  using assms
  by (auto simp: trySingleDetour_def Let_def split: option.splits dest: find_Some_iff [THEN iffD1])

text \<open>One unfolding of the recursion, for a call that has to split.\<close>

lemma landAwareFallback_split:
  assumes "\<not> maxDepth < depth" "chordCrossesLand A B c" "trySingleDetour A B c = Some None"
  shows "landAwareFallback A B c depth maxDepth =
           (case landAwareFallback A (lerp A B (1 / 2)) c (depth + 1) maxDepth of
              None \<Rightarrow> None
            | Some L \<Rightarrow>
                (case landAwareFallback (lerp A B (1 / 2)) B c (depth + 1) maxDepth of
                   None \<Rightarrow> None
                 | Some Rt \<Rightarrow>
                     (case (L, Rt) of
                        (Some l, Some r) \<Rightarrow> Some (Some (butlast l @ r))
                      | _ \<Rightarrow> Some None)))"
  using assms by (subst landAwareFallback.simps) (simp add: Let_def)

lemma landAwareFallback_total:
  assumes "case bearingStep c of None \<Rightarrow> True | Some s \<Rightarrow> 0 < s"
  shows "\<exists>r. landAwareFallback A B c depth maxDepth = Some r"
  using assms
proof (induction A B c depth maxDepth rule: landAwareFallback.induct)
  case (1 A B c depth maxDepth)
  show ?case
  proof (cases "maxDepth < depth \<or> \<not> chordCrossesLand A B c")
    case True
    then show ?thesis by (subst landAwareFallback.simps) auto
  next
    case False
    from trySingleDetour_total [OF 1(3), of A B] obtain r where r: "trySingleDetour A B c = Some r" by blast
    show ?thesis
    proof (cases r)
      case (Some d)
      with False r show ?thesis by (subst landAwareFallback.simps) auto
    next
      case None
      from 1(1) [OF _ _ r None refl 1(3)] False
      obtain L where L: "landAwareFallback A (lerp A B (1 / 2)) c (depth + 1) maxDepth = Some L" by auto
      from 1(2) [OF _ _ r None refl L 1(3)] False
      obtain Rt where Rt: "landAwareFallback (lerp A B (1 / 2)) B c (depth + 1) maxDepth = Some Rt" by auto
      from False r None have "\<not> maxDepth < depth" "chordCrossesLand A B c" "trySingleDetour A B c = Some None"
        by simp_all
      from landAwareFallback_split [OF this] have "landAwareFallback A B c depth maxDepth =
          (case (L, Rt) of (Some l, Some r) \<Rightarrow> Some (Some (butlast l @ r)) | _ \<Rightarrow> Some None)"
        unfolding L Rt by simp
      then show ?thesis by (auto split: option.splits)
    qed
  qed
qed

lemma landAwareFallback_ends:
  "landAwareFallback A B c depth maxDepth = Some (Some ps) \<Longrightarrow>
     2 \<le> length ps \<and> hd ps = A \<and> last ps = B"
proof (induction A B c depth maxDepth arbitrary: ps rule: landAwareFallback.induct)
  case (1 A B c depth maxDepth)
  show ?case
  proof (cases "maxDepth < depth")
    case True
    with 1(3) show ?thesis by (subst (asm) landAwareFallback.simps) simp
  next
    case deep: False
    show ?thesis
    proof (cases "chordCrossesLand A B c")
      case False
      with deep 1(3) show ?thesis by (subst (asm) landAwareFallback.simps) auto
    next
      case True
      show ?thesis
      proof (cases "trySingleDetour A B c")
        case None
        with deep True 1(3) show ?thesis by (subst (asm) landAwareFallback.simps) simp
      next
        case (Some r)
        show ?thesis
        proof (cases r)
          case (Some d)
          with deep True \<open>trySingleDetour A B c = Some r\<close> 1(3) have "ps = d"
            by (subst (asm) landAwareFallback.simps) simp
          with trySingleDetour_Some [of A B c d] Some \<open>trySingleDetour A B c = Some r\<close>
          show ?thesis by auto
        next
          case None
          note r = \<open>trySingleDetour A B c = Some r\<close>
          from r None have "trySingleDetour A B c = Some None" by simp
          from 1(3) [unfolded landAwareFallback_split [OF deep True this]]
          obtain l rr where l: "landAwareFallback A (lerp A B (1 / 2)) c (depth + 1) maxDepth = Some (Some l)"
            and rr: "landAwareFallback (lerp A B (1 / 2)) B c (depth + 1) maxDepth = Some (Some rr)"
            and ps: "ps = butlast l @ rr"
            by (auto split: option.splits)
          from 1(1) [OF deep _ r None refl l] True
          have L: "2 \<le> length l" "hd l = A" by simp_all
          from 1(2) [OF deep _ r None refl l rr] True
          have Rr: "2 \<le> length rr" "last rr = B" by simp_all
          have "butlast l \<noteq> []" using L(1) by (cases l rule: rev_cases) auto
          moreover have "hd (butlast l) = A" using L by (cases l) (auto split: if_splits)
          moreover have "rr \<noteq> []" using Rr(1) by auto
          ultimately show ?thesis using ps Rr by (simp add: hd_append)
        qed
      qed
    qed
  qed
qed

lemma chordCrossesLand_all_blocked:
  assumes "\<And>cell. isCellBlocked c cell"
  shows "chordCrossesLand A B c"
proof -
  have "0 < sampleCount (haversineM A B) (case sampleMeters c of None \<Rightarrow> 250 | Some s \<Rightarrow> s)"
    by (rule sampleCount_pos)
  from gcPoints_length [OF this, of A B] have "chordSamples A B c \<noteq> []"
    unfolding chordSamples_eq
    by (cases "gcPoints A B (sampleCount (haversineM A B) (case sampleMeters c of None \<Rightarrow> 250 | Some s \<Rightarrow> s))") auto
  then obtain p where "p \<in> set (chordSamples A B c)" by (cases "chordSamples A B c") auto
  then show ?thesis using assms by (auto simp: chordCrossesLand_iff pointIsLand_def)
qed

lemma trySingleDetour_all_blocked:
  assumes "\<And>cell. isCellBlocked c cell" "case bearingStep c of None \<Rightarrow> True | Some s \<Rightarrow> 0 < s"
  shows "trySingleDetour A B c = Some None"
proof -
  from trySingleDetour_total [OF assms(2), of A B] obtain r where r: "trySingleDetour A B c = Some r"
    by blast
  show ?thesis
  proof (cases r)
    case None with r show ?thesis by simp
  next
    case (Some ps)
    with r trySingleDetour_Some [of A B c ps] assms(1) show ?thesis by (auto simp: pointIsLand_def)
  qed
qed

lemma landAwareFallback_all_blocked:
  assumes "\<And>cell. isCellBlocked c cell" "case bearingStep c of None \<Rightarrow> True | Some s \<Rightarrow> 0 < s"
  shows "landAwareFallback A B c depth maxDepth = Some None"
  using assms
proof (induction A B c depth maxDepth rule: landAwareFallback.induct)
  case (1 A B c depth maxDepth)
  show ?case
  proof (cases "maxDepth < depth")
    case True then show ?thesis by (subst landAwareFallback.simps) simp
  next
    case False
    have ch: "chordCrossesLand A B c" by (rule chordCrossesLand_all_blocked) (rule 1(3))
    have tr: "trySingleDetour A B c = Some None" by (rule trySingleDetour_all_blocked) (rule 1(3), rule 1(4))
    have L: "landAwareFallback A (lerp A B (1 / 2)) c (depth + 1) maxDepth = Some None"
      using 1(1) [OF False _ tr refl refl 1(3) 1(4)] ch by simp
    have Rt: "landAwareFallback (lerp A B (1 / 2)) B c (depth + 1) maxDepth = Some None"
      using 1(2) [OF False _ tr refl refl L 1(3) 1(4)] ch by simp
    show ?thesis unfolding landAwareFallback_split [OF False ch tr] L Rt by simp
  qed
qed

text \<open>
  \<^bold>\<open>C5\<close>. With a positive bearing step (the default 10 and the step 10 that the router
  passes), \<open>landAwareFallback\<close> returns for every pair of points. Beyond the maximum depth it
  returns \<^verbatim>\<open>null\<close>. When the chord is blocked and no via-point is found at any radius, it
  recurses on \<open>[A, mid]\<close> and \<open>[mid, B]\<close> with the depth increased by one, \<open>mid\<close> being the
  midpoint; both calls return, and the result is \<^verbatim>\<open>null\<close> as soon as one half is \<^verbatim>\<open>null\<close>
  and the two polylines joined otherwise. A polyline it returns has at least two points,
  starts at \<open>A\<close> and ends at \<open>B\<close>. A single detour that succeeds is \<open>[A, C, B]\<close> with \<open>C\<close> in an
  unblocked cell and the chords from \<open>A\<close> to \<open>C\<close> and from \<open>C\<close> to \<open>B\<close> unblocked, and it is
  what the fallback returns for a blocked chord within the depth.
\<close>

theorem landAwareFallback_terminates:
  assumes "case bearingStep c of None \<Rightarrow> True | Some s \<Rightarrow> 0 < s"
  shows "(\<exists>r. landAwareFallback A B c depth maxDepth = Some r)
       \<and> (maxDepth < depth \<longrightarrow> landAwareFallback A B c depth maxDepth = Some None)
       \<and> (\<not> maxDepth < depth \<and> chordCrossesLand A B c \<and> trySingleDetour A B c = Some None \<longrightarrow>
            (\<exists>L Rt. landAwareFallback A (lerp A B (1 / 2)) c (depth + 1) maxDepth = Some L
                \<and> landAwareFallback (lerp A B (1 / 2)) B c (depth + 1) maxDepth = Some Rt
                \<and> landAwareFallback A B c depth maxDepth =
                     Some (case (L, Rt) of (Some l, Some r) \<Rightarrow> Some (butlast l @ r) | _ \<Rightarrow> None)))
       \<and> (\<forall>ps. landAwareFallback A B c depth maxDepth = Some (Some ps) \<longrightarrow>
                 2 \<le> length ps \<and> hd ps = A \<and> last ps = B)
       \<and> (\<forall>ps. trySingleDetour A B c = Some (Some ps) \<longrightarrow>
                 (\<exists>C. ps = [A, C, B] \<and> \<not> pointIsLand (lng C) (lat C) c
                      \<and> \<not> chordCrossesLand A C c \<and> \<not> chordCrossesLand C B c)
                 \<and> (\<not> maxDepth < depth \<and> chordCrossesLand A B c \<longrightarrow>
                      landAwareFallback A B c depth maxDepth = Some (Some ps)))"
proof -
  have deep: "landAwareFallback A B c depth maxDepth = Some None" if "maxDepth < depth"
    using that by (subst landAwareFallback.simps) simp
  have split: "\<exists>L Rt. landAwareFallback A (lerp A B (1 / 2)) c (depth + 1) maxDepth = Some L
                \<and> landAwareFallback (lerp A B (1 / 2)) B c (depth + 1) maxDepth = Some Rt
                \<and> landAwareFallback A B c depth maxDepth =
                     Some (case (L, Rt) of (Some l, Some r) \<Rightarrow> Some (butlast l @ r) | _ \<Rightarrow> None)"
    if h: "\<not> maxDepth < depth \<and> chordCrossesLand A B c \<and> trySingleDetour A B c = Some None"
  proof -
    from landAwareFallback_total [OF assms] obtain L Rt
      where L: "landAwareFallback A (lerp A B (1 / 2)) c (depth + 1) maxDepth = Some L"
        and Rt: "landAwareFallback (lerp A B (1 / 2)) B c (depth + 1) maxDepth = Some Rt"
      by blast
    from h have "\<not> maxDepth < depth" "chordCrossesLand A B c" "trySingleDetour A B c = Some None"
      by simp_all
    from landAwareFallback_split [OF this]
    have "landAwareFallback A B c depth maxDepth =
            Some (case (L, Rt) of (Some l, Some r) \<Rightarrow> Some (butlast l @ r) | _ \<Rightarrow> None)"
      unfolding L Rt by (simp split: option.splits)
    with L Rt show ?thesis by blast
  qed
  have detour: "landAwareFallback A B c depth maxDepth = Some (Some ps)"
    if "trySingleDetour A B c = Some (Some ps)" "\<not> maxDepth < depth \<and> chordCrossesLand A B c" for ps
    using that by (subst landAwareFallback.simps) simp
  show ?thesis
    using landAwareFallback_total [OF assms, of A B depth maxDepth] deep split
      landAwareFallback_ends [of A B c depth maxDepth] trySingleDetour_Some [of A B c] detour
    by blast
qed

text \<open>The claim on the flat grid with the depth 0 and the maximum depth 8: where every cell
  is blocked the fallback returns \<^verbatim>\<open>null\<close>, and where the chord is clear it returns the chord.\<close>

theorem landAwareFallback_terminates_witness:
  "landAwareFallback (gridPt 0) (gridPt 48) (gridCtx (\<lambda>c. True) 250) 0 8 = Some None
   \<and> landAwareFallback (gridPt 0) (gridPt 48) (gridCtx (\<lambda>c. c = (1, 1)) 250) 0 8
        = Some (Some [gridPt 0, gridPt 48])"
proof -
  have s: "case bearingStep (gridCtx blk 250) of None \<Rightarrow> True | Some s \<Rightarrow> 0 < s" for blk
    by (simp add: gridCtx_def)
  have 1: "landAwareFallback (gridPt 0) (gridPt 48) (gridCtx (\<lambda>c. True) 250) 0 8 = Some None"
    by (rule landAwareFallback_all_blocked) (simp_all add: gridCtx_def)
  have "\<not> chordCrossesLand (gridPt 0) (gridPt 48) (gridCtx (\<lambda>c. c = (1, 1)) 250)"
    by (subst chordCrossesLand_grid_250) simp_all
  then have 2: "landAwareFallback (gridPt 0) (gridPt 48) (gridCtx (\<lambda>c. c = (1, 1)) 250) 0 8
        = Some (Some [gridPt 0, gridPt 48])"
    by (subst landAwareFallback.simps) simp
  from landAwareFallback_terminates [OF s [of "\<lambda>c. True"], of "gridPt 0" "gridPt 48" 0 8] 1 2
  show ?thesis by simp
qed

lemma bearing_south:
  assumes "lng a = lng b" "lat b < lat a" "- 90 < lat b" "lat a < 90"
  shows "bearing a b = 180"
proof -
  define p1 where "p1 = toRad (lat a)"
  define p2 where "p2 = toRad (lat b)"
  have b: "- (pi / 2) < p2" "p2 < p1" "p1 < pi / 2"
    using assms toRad_less_iff [of "- 90" "lat b"] toRad_less_iff [of "lat b" "lat a"]
      toRad_less_iff [of "lat a" 90] by (simp_all add: p1_def p2_def toRad_def)
  have "sin (p1 - p2) > 0" using b by (intro sin_gt_zero) auto
  then have x: "cos p1 * sin p2 - sin p1 * cos p2 < 0" by (simp add: sin_diff)
  have "atan2 0 (cos p1 * sin p2 - sin p1 * cos p2) = pi" using x by (rule atan2_0_neg)
  then have "bearing a b = fmod (toDeg pi + 360) 360"
    using assms(1) by (simp add: bearing_def Let_def p1_def p2_def)
  also have "\<dots> = 180" by (simp add: toDeg_def fmod_def)
  finally show ?thesis .
qed

lemma destM_south:
  assumes l: "- 180 \<le> lng a" "lng a < 180"
    and m: "0 \<le> m" and la: "lat a < 90" "- 90 < lat a - toDeg (m / R)"
  shows "destM a m 180 = \<lparr>lng = lng a, lat = lat a - toDeg (m / R)\<rparr>"
proof -
  define p1 where "p1 = toRad (lat a)"
  define dd where "dd = m / R"
  have dd0: "0 \<le> dd" using m R_pos by (simp add: dd_def)
  have "toRad (- 90) < toRad (lat a - toDeg (m / R))" using la(2) by (simp only: toRad_less_iff)
  moreover have "toRad (- 90) = - (pi / 2)" by (simp add: toRad_def)
  moreover have "toRad (lat a - toDeg (m / R)) = p1 - dd"
    unfolding toRad_diff toRad_toDeg p1_def dd_def ..
  ultimately have lo: "- (pi / 2) < p1 - dd" by simp
  have hi: "p1 < pi / 2" using la(1) toRad_less_iff [of "lat a" 90] by (simp add: p1_def toRad_def)
  have p1b: "- (pi / 2) < p1" using lo dd0 by simp
  have s: "sin p1 * cos dd + cos p1 * sin dd * cos (toRad 180) = sin (p1 - dd)"
    by (simp add: toRad_180 sin_diff)
  have as: "arcsin (min 1 (max (- 1) (sin (p1 - dd)))) = p1 - dd"
  proof -
    have "min 1 (max (- 1) (sin (p1 - dd))) = sin (p1 - dd)" by (simp add: min_absorb2 max_absorb2)
    then show ?thesis using lo hi dd0 by (simp add: arcsin_sin)
  qed
  have x: "cos dd - sin p1 * sin (p1 - dd) = cos p1 * cos (p1 - dd)"
  proof -
    have "cos dd = cos (p1 - (p1 - dd))" by simp
    also have "\<dots> = cos p1 * cos (p1 - dd) + sin p1 * sin (p1 - dd)" by (rule cos_diff)
    finally show ?thesis by simp
  qed
  have "0 < cos p1" using p1b hi by (simp add: cos_gt_zero_pi)
  moreover have "0 < cos (p1 - dd)" using lo hi dd0 by (intro cos_gt_zero_pi) auto
  ultimately have xpos: "0 < cos p1 * cos (p1 - dd)" by simp
  have y: "sin (toRad 180) * sin dd * cos p1 = 0" by (simp add: toRad_180)
  have lat_eq: "toDeg (p1 - dd) = lat a - toDeg (m / R)"
    by (simp add: p1_def dd_def toDeg_def toRad_def field_simps)
  have "destM a m 180 =
          \<lparr>lng = fmod (toDeg (toRad (lng a) + atan2 0 (cos p1 * cos (p1 - dd))) + 540) 360 - 180,
           lat = toDeg (p1 - dd)\<rparr>"
    unfolding destM_def Let_def p1_def [symmetric] dd_def [symmetric] s as x y ..
  also have "atan2 0 (cos p1 * cos (p1 - dd)) = 0" using xpos by (rule atan2_0_pos)
  finally show ?thesis using l by (simp add: fmod_540 lat_eq)
qed

lemma toDeg_bounds:
  assumes "0 < m"
  shows "m * 45 / R < toDeg (m / R)" "toDeg (m / R) \<le> m * 90 / R"
proof -
  have e: "toDeg (m / R) = m * 180 / (R * pi)" by (simp add: toDeg_def)
  have "m * 180 / (R * pi) \<le> m * 180 / (R * 2)"
    using assms R_pos pi_ge_two by (intro divide_left_mono) (simp_all add: mult_pos_pos)
  then show "toDeg (m / R) \<le> m * 90 / R" unfolding e by (simp add: mult.commute)
  have "m * 180 / (R * 4) < m * 180 / (R * pi)"
    using assms R_pos pi_less_4 pi_gt_zero by (intro divide_strict_left_mono) (simp_all add: mult_pos_pos)
  then show "m * 45 / R < toDeg (m / R)" unfolding e by (simp add: mult.commute)
qed

lemma shoreBisect_hi_open:
  assumes "\<not> blocked (geoToH3 h (lat (lerp p C hi)) (lng (lerp p C hi)) res)"
  shows "\<not> blocked (geoToH3 h (lat (lerp p C (snd (shoreBisect h res blocked p C n lo hi))))
                              (lng (lerp p C (snd (shoreBisect h res blocked p C n lo hi)))) res)"
  using assms
proof (induction n arbitrary: lo hi)
  case 0 then show ?case by simp
next
  case (Suc n)
  show ?case
  proof (cases "blocked (geoToH3 h (lat (lerp p C ((lo + hi) / 2))) (lng (lerp p C ((lo + hi) / 2))) res)")
    case True
    with Suc.prems Suc.IH [of hi "(lo + hi) / 2"] show ?thesis by (simp add: Let_def)
  next
    case False
    with Suc.IH [of "(lo + hi) / 2" lo] show ?thesis by (simp add: Let_def)
  qed
qed

lemma firstWaterT_open:
  "firstWaterT h res blocked p C = Some t \<Longrightarrow>
     \<not> blocked (geoToH3 h (lat (lerp p C t)) (lng (lerp p C t)) res)"
  by (auto simp: firstWaterT_def Let_def find_Some_iff)

text \<open>The shape of the result of \<open>snapEndpointToWater\<close>. A waypoint whose cell is unblocked
  comes back unchanged with no dock leg, and so does a waypoint for which no target is found.
  For a waypoint \<open>p\<close> whose cell is blocked and for which a target \<open>C\<close> is found (an open point
  along the hint bearing, or the centre of an unblocked cell within the search rings), the
  result carries a dock leg of two points, from \<open>p\<close> to the returned point. The returned point
  is either \<open>C\<close> itself, when no step of the walk towards \<open>C\<close> is in an unblocked cell, or the
  point \<open>destM q safety (bearing p C)\<close> for the shoreline point \<open>q = lerp p C hi\<close>, which lies
  in an unblocked cell.\<close>

theorem snapEndpointToWater_result:
  fixes opts :: "'c snapOpts" and p :: point
  defines "blocked \<equiv> makeIsCellBlocked (snap_h3 opts) (snap_hasLandCell opts)
                        (case snap_dilateKRings opts of None \<Rightarrow> 1 | Some k \<Rightarrow> k)"
  defines "cellOf \<equiv> (\<lambda>q. geoToH3 (snap_h3 opts) (lat q) (lng q) (snap_h3Res opts))"
  defines "target \<equiv> snapTarget (snap_h3 opts) (snap_h3Res opts) blocked p (hintBearing opts)
                        (case searchMaxRings opts of None \<Rightarrow> 120 | Some m \<Rightarrow> m)"
  defines "r \<equiv> snapEndpointToWater p opts"
  shows "(\<not> blocked (cellOf p) \<longrightarrow> r = \<lparr>point = p, dockLeg = None, dock = NoDock\<rparr>)
       \<and> (blocked (cellOf p) \<and> target = None \<longrightarrow> r = \<lparr>point = p, dockLeg = None, dock = NoWater\<rparr>)
       \<and> (\<forall>C. blocked (cellOf p) \<and> target = Some C \<longrightarrow>
             dockLeg r = Some [(lng p, lat p), (lng (point r), lat (point r))]
             \<and> (dock r = StraightCenter \<and> point r = C
                  \<and> firstWaterT (snap_h3 opts) (snap_h3Res opts) blocked p C = None
                \<or> dock r = Straight
                  \<and> (\<exists>hi. \<not> blocked (cellOf (lerp p C hi))
                        \<and> point r = destM (lerp p C hi)
                                      (case safetyMeters opts of None \<Rightarrow> 150 | Some m \<Rightarrow> m)
                                      (bearing p C))))"
proof -
  have 1: "r = \<lparr>point = p, dockLeg = None, dock = NoDock\<rparr>" if "\<not> blocked (cellOf p)"
    using that by (simp add: r_def snapEndpointToWater_def Let_def blocked_def cellOf_def)
  have 2: "r = \<lparr>point = p, dockLeg = None, dock = NoWater\<rparr>" if "blocked (cellOf p) \<and> target = None"
    using that by (simp add: r_def snapEndpointToWater_def Let_def blocked_def cellOf_def target_def)
  have 3: "dockLeg r = Some [(lng p, lat p), (lng (point r), lat (point r))]
             \<and> (dock r = StraightCenter \<and> point r = C
                  \<and> firstWaterT (snap_h3 opts) (snap_h3Res opts) blocked p C = None
                \<or> dock r = Straight
                  \<and> (\<exists>hi. \<not> blocked (cellOf (lerp p C hi))
                        \<and> point r = destM (lerp p C hi)
                                      (case safetyMeters opts of None \<Rightarrow> 150 | Some m \<Rightarrow> m)
                                      (bearing p C)))"
    if h: "blocked (cellOf p) \<and> target = Some C" for C
  proof (cases "firstWaterT (snap_h3 opts) (snap_h3Res opts) blocked p C")
    case None
    with h show ?thesis
      by (simp add: r_def snapEndpointToWater_def Let_def blocked_def cellOf_def target_def)
  next
    case (Some t)
    define lh where "lh = shoreBisect (snap_h3 opts) (snap_h3Res opts) blocked p C 24 (max 0 (t - 1 / 20)) t"
    have open_hi: "\<not> blocked (cellOf (lerp p C (snd lh)))"
      unfolding lh_def cellOf_def by (rule shoreBisect_hi_open) (rule firstWaterT_open [OF Some])
    have "r = \<lparr>point = destM (lerp p C (snd lh)) (case safetyMeters opts of None \<Rightarrow> 150 | Some m \<Rightarrow> m) (bearing p C),
               dockLeg = Some [(lng p, lat p),
                  (lng (destM (lerp p C (snd lh)) (case safetyMeters opts of None \<Rightarrow> 150 | Some m \<Rightarrow> m) (bearing p C)),
                   lat (destM (lerp p C (snd lh)) (case safetyMeters opts of None \<Rightarrow> 150 | Some m \<Rightarrow> m) (bearing p C)))],
               dock = Straight\<rparr>"
      using h Some
      by (simp add: r_def snapEndpointToWater_def Let_def blocked_def [symmetric] cellOf_def target_def 
            lh_def [symmetric] split_beta)
    with open_hi show ?thesis by auto
  qed
  from 1 2 3 show ?thesis by blast
qed

lemma hexRing_1:
  "hexRing (q, r) (Suc 0) =
     [(q - 1, r), (q - 1, r + 1), (q, r - 1), (q, r), (q, r + 1), (q + 1, r - 1), (q + 1, r)]"
  by (simp add: hexRing_def upto.simps)

lemma kRing_hexGrid: "kRing hexGrid c k = hexRing c k"
  by (simp add: hexGrid_def)

lemma channel_noise:
  "makeHasLandCellNoiseTolerant hexGrid channelLand 3 c \<longleftrightarrow> 0 \<le> fst c \<or> fst c \<le> - 4"
  by (cases c) (auto simp: makeHasLandCellNoiseTolerant_def kRing_hexGrid hexRing_1 channelLand_def)

lemma channel_blocked:
  "makeIsCellBlocked hexGrid channelLand 1 (q, r) \<longleftrightarrow> q \<noteq> - 2"
proof -
  have "makeIsCellBlocked hexGrid channelLand 1 (q, r) \<longleftrightarrow>
          (0 \<le> q \<or> q \<le> - 4) \<or> (\<exists>nb \<in> set (hexRing (q, r) (Suc 0)). 0 \<le> fst nb \<or> fst nb \<le> - 4)"
    unfolding makeIsCellBlocked_iff channel_noise kRing_hexGrid by simp
  also have "\<dots> \<longleftrightarrow> q \<noteq> - 2" unfolding hexRing_1 by auto
  finally show ?thesis .
qed

lemma channel_blocked_Suc:
  "makeIsCellBlocked hexGrid channelLand (Suc 0) (q, r) \<longleftrightarrow> q \<noteq> - 2"
  using channel_blocked [of q r] by simp

lemma channel_blocked_fst: "makeIsCellBlocked hexGrid channelLand 1 c \<longleftrightarrow> fst c \<noteq> - 2"
  using channel_blocked [of "fst c" "snd c"] by simp

lemma find_append: "find P (xs @ ys) = (case find P xs of None \<Rightarrow> find P ys | Some x \<Rightarrow> Some x)"
  by (induction xs) auto

lemma hexRing_2_hd: "hexRing (0, 0) 2 = (- 2, 0) # tl (hexRing (0, 0) 2)"
  by (simp add: hexRing_def upto.simps)

lemma channel_target:
  "snapTarget hexGrid 9 (makeIsCellBlocked hexGrid channelLand 1) bankPt None 120
     = Some \<lparr>lng = 1 / 2000, lat = - 3 / 2000\<rparr>"
proof -
  have seed: "geoToH3 hexGrid (lat bankPt) (lng bankPt) 9 = (0, 0)"
    by (simp add: hexGrid_def bankPt_def)
  have "[1..<120 + 1] = 1 # 2 # [3..<121]" by (simp add: upt_rec)
  then have c: "concat (map (\<lambda>r. kRing hexGrid (0, 0) r) [1..<120 + 1])
      = hexRing (0, 0) (Suc 0) @ ((- 2, 0) # tl (hexRing (0, 0) 2)) @ concat (map (\<lambda>r. hexRing (0, 0) r) [3..<121])"
    using hexRing_2_hd by (simp add: hexGrid_def)
  have f1: "find (\<lambda>c. \<not> makeIsCellBlocked hexGrid channelLand 1 c) (hexRing (0, 0) (Suc 0)) = None"
    by (simp add: hexRing_1 channel_blocked_Suc)
  have "find (\<lambda>c. \<not> makeIsCellBlocked hexGrid channelLand 1 c)
          (concat (map (\<lambda>r. kRing hexGrid (0, 0) r) [1..<120 + 1])) = Some (- 2, 0)"
    unfolding c find_append f1 by (simp add: channel_blocked_Suc)
  then show ?thesis
    by (simp add: snapTarget_def Let_def seed) (simp add: hexGrid_def)
qed

lemma channel_cell_lerp:
  "geoToH3 hexGrid (lat (lerp bankPt \<lparr>lng = 1 / 2000, lat = - 3 / 2000\<rparr> t))
                   (lng (lerp bankPt \<lparr>lng = 1 / 2000, lat = - 3 / 2000\<rparr> t)) 9
     = (\<lfloor>7 / 10 - 11 / 5 * t\<rfloor>, 0)"
proof -
  have "(7 / 10000 + (- 3 / 2000 - 7 / 10000) * t) * 1000 = 7 / 10 - 11 / 5 * t"
    by (simp add: field_simps)
  then show ?thesis by (simp add: hexGrid_def lerp_def bankPt_def del: distrib_right_numeral)
qed

lemma channel_walk:
  "firstWaterT hexGrid 9 (makeIsCellBlocked hexGrid channelLand 1) bankPt
      \<lparr>lng = 1 / 2000, lat = - 3 / 2000\<rparr> = Some (4 / 5)"
proof -
  have l: "[1..<21] = [1, 2, 3, 4, 5, 6, 7, 8, 9, 10, 11, 12, 13, 14, 15, 16, 17, 18, 19, 20 :: nat]"
    by (simp add: upt_rec)
  show ?thesis
    unfolding firstWaterT_def Let_def channel_cell_lerp channel_blocked l
    by (simp add: floor_eq_iff)
qed

lemma channel_lerp_lat:
  "lerp bankPt \<lparr>lng = 1 / 2000, lat = - 3 / 2000\<rparr> t = \<lparr>lng = 1 / 2000, lat = 7 / 10000 - 11 / 5000 * t\<rparr>"
  by (simp add: lerp_def bankPt_def field_simps)

lemma channel_bisect:
  "shoreBisect hexGrid 9 (makeIsCellBlocked hexGrid channelLand 1) bankPt
      \<lparr>lng = 1 / 2000, lat = - 3 / 2000\<rparr> 24 (3 / 4) (4 / 5) = (3 / 4, 31 / 40)"
proof -
  have mid: "((3 / 4 :: real) + 4 / 5) / 2 = 31 / 40" by simp
  have open_mid: "\<not> makeIsCellBlocked hexGrid channelLand 1
      (geoToH3 hexGrid (lat (lerp bankPt \<lparr>lng = 1 / 2000, lat = - 3 / 2000\<rparr> (31 / 40)))
                       (lng (lerp bankPt \<lparr>lng = 1 / 2000, lat = - 3 / 2000\<rparr> (31 / 40))) 9)"
    unfolding channel_cell_lerp channel_blocked by (simp add: floor_eq_iff)
  have "haversineM (lerp bankPt \<lparr>lng = 1 / 2000, lat = - 3 / 2000\<rparr> (3 / 4))
                   (lerp bankPt \<lparr>lng = 1 / 2000, lat = - 3 / 2000\<rparr> (31 / 40))
          = R * toRad (11 / 200000)"
    unfolding channel_lerp_lat by (subst haversineM_meridian) simp_all
  also have "\<dots> = R * (11 / 200000) * pi / 180" by (simp add: toRad_def)
  also have "\<dots> < R * (11 / 200000) * 4 / 180"
    using pi_less_4 R_pos by (intro divide_strict_right_mono mult_strict_left_mono) simp_all
  also have "\<dots> < 60" by (simp add: R_def)
  finally have near: "haversineM (lerp bankPt \<lparr>lng = 1 / 2000, lat = - 3 / 2000\<rparr> (3 / 4))
                   (lerp bankPt \<lparr>lng = 1 / 2000, lat = - 3 / 2000\<rparr> (31 / 40)) < 60" .
  have "shoreBisect hexGrid 9 (makeIsCellBlocked hexGrid channelLand 1) bankPt
      \<lparr>lng = 1 / 2000, lat = - 3 / 2000\<rparr> (Suc 23) (3 / 4) (4 / 5) = (3 / 4, 31 / 40)"
    unfolding shoreBisect.simps Let_def mid using open_mid near by simp
  then show ?thesis by simp
qed

text \<open>The result of snapping the waypoint on the bank, for a safety distance \<open>m\<close>.\<close>

lemma channel_snap:
  assumes "0 \<le> m" "m \<le> 1000" "safety = None \<and> m = 150 \<or> safety = Some m"
  shows "snapEndpointToWater bankPt (channelOpts safety) =
           \<lparr>point = \<lparr>lng = 1 / 2000, lat = - 201 / 200000 - toDeg (m / R)\<rparr>,
            dockLeg = Some [(1 / 2000, 7 / 10000), (1 / 2000, - 201 / 200000 - toDeg (m / R))],
            dock = Straight\<rparr>"
proof -
  let ?C = "\<lparr>lng = 1 / 2000, lat = - 3 / 2000 :: real\<rparr>"
  have cell: "geoToH3 hexGrid (lat bankPt) (lng bankPt) 9 = (0, 0)"
    by (simp add: hexGrid_def bankPt_def)
  have seed: "makeIsCellBlocked hexGrid channelLand 1 (geoToH3 hexGrid (lat bankPt) (lng bankPt) 9)"
    unfolding cell channel_blocked by simp
  have brg: "bearing bankPt ?C = 180"
    by (rule bearing_south) (simp_all add: bankPt_def)
  have sm: "(case safety of None \<Rightarrow> 150 | Some m \<Rightarrow> m) = m" using assms(3) by auto
  have "toDeg (m / R) \<le> m * 90 / R"
  proof (cases "m = 0")
    case True then show ?thesis by (simp add: toDeg_def)
  next
    case False with assms(1) toDeg_bounds(2) [of m] show ?thesis by simp
  qed
  also have "\<dots> \<le> 1000 * 90 / R" using assms(2) R_pos by (simp add: divide_right_mono)
  also have "\<dots> < 1" by (simp add: R_def)
  finally have small: "toDeg (m / R) < 1" .
  have Q: "destM (lerp bankPt ?C (31 / 40)) m 180 = \<lparr>lng = 1 / 2000, lat = - 201 / 200000 - toDeg (m / R)\<rparr>"
    unfolding channel_lerp_lat using assms(1) small by (subst destM_south) simp_all
  have f: "snap_h3 (channelOpts safety) = hexGrid" "snap_h3Res (channelOpts safety) = 9"
    "snap_hasLandCell (channelOpts safety) = channelLand" "snap_dilateKRings (channelOpts safety) = None"
    "searchMaxRings (channelOpts safety) = None" "safetyMeters (channelOpts safety) = safety"
    "hintBearing (channelOpts safety) = None"
    by (simp_all add: channelOpts_def)
  have mx: "max 0 (4 / 5 - 1 / 20) = (3 / 4 :: real)" by simp
  have "snapEndpointToWater bankPt (channelOpts safety) =
           \<lparr>point = \<lparr>lng = 1 / 2000, lat = - 201 / 200000 - toDeg (m / R)\<rparr>,
            dockLeg = Some [(lng bankPt, lat bankPt),
               (lng \<lparr>lng = 1 / 2000, lat = - 201 / 200000 - toDeg (m / R)\<rparr>,
                lat \<lparr>lng = 1 / 2000, lat = - 201 / 200000 - toDeg (m / R)\<rparr>)],
            dock = Straight\<rparr>"
    unfolding snapEndpointToWater_def Let_def f
    by (simp only: option.case seed not_True_eq_False if_False channel_target channel_walk mx
          channel_bisect prod.case brg sm Q)
  then show ?thesis by (simp add: bankPt_def)
qed

lemma channel_snap_cell:
  assumes "0 \<le> m" "m \<le> 1000" "safety = None \<and> m = 150 \<or> safety = Some m"
  shows "geoToH3 hexGrid (lat (point (snapEndpointToWater bankPt (channelOpts safety))))
                         (lng (point (snapEndpointToWater bankPt (channelOpts safety)))) 9
           = (\<lfloor>(- 201 / 200000 - toDeg (m / R)) * 1000\<rfloor>, 0)"
  unfolding channel_snap [OF assms] by (simp add: hexGrid_def del: distrib_right_numeral)

text \<open>
  \<^bold>\<open>C7\<close>. The snapped point of \<open>snapEndpointToWater\<close> need not lie in an unblocked cell,
  against the claim and against the function's own description (\<^verbatim>\<open>the nearest safe water
  point\<close>): the shoreline point is moved by the safety distance and returned without a test of
  the cell it lands in, while every other point the function picks is tested. On the flat
  grid with the channel, with the default options (one ring of dilation, 150 m of safety
  distance), the waypoint on the north bank lies in a blocked cell and the unblocked cell
  \<open>(-2, 0)\<close> in the middle of the channel is found in the second ring. The walk and the
  bisection stop just inside that cell, and the 150 m added along the bearing carry the result
  across the row of unblocked cells into a blocked cell on the far side; it is returned with
  a dock leg.
\<close>

theorem snapEndpointToWater_lands_blocked:
  "makeIsCellBlocked hexGrid channelLand 1 (geoToH3 hexGrid (lat bankPt) (lng bankPt) 9)
   \<and> snapTarget hexGrid 9 (makeIsCellBlocked hexGrid channelLand 1) bankPt None 120
        = Some \<lparr>lng = 1 / 2000, lat = - 3 / 2000\<rparr>
   \<and> \<not> makeIsCellBlocked hexGrid channelLand 1 (- 2, 0)
   \<and> dock (snapEndpointToWater bankPt (channelOpts None)) = Straight
   \<and> dockLeg (snapEndpointToWater bankPt (channelOpts None)) \<noteq> None
   \<and> makeIsCellBlocked hexGrid channelLand 1
        (geoToH3 hexGrid (lat (point (snapEndpointToWater bankPt (channelOpts None))))
                         (lng (point (snapEndpointToWater bankPt (channelOpts None)))) 9)"
proof -
  have cell: "geoToH3 hexGrid (lat bankPt) (lng bankPt) 9 = (0, 0)"
    by (simp add: hexGrid_def bankPt_def)
  have seed: "makeIsCellBlocked hexGrid channelLand 1 (geoToH3 hexGrid (lat bankPt) (lng bankPt) 9)"
    unfolding cell channel_blocked by simp
  have a: "(0::real) \<le> 150" "(150::real) \<le> 1000" "None = (None :: real option) \<and> (150::real) = 150 \<or> None = Some (150::real)"
    by simp_all
  have "150 * 45 / R < toDeg (150 / R)" by (rule toDeg_bounds) simp
  moreover have "1 / 1000 < 150 * 45 / R" by (simp add: R_def)
  ultimately have "1 / 1000 < toDeg (150 / R)" by (rule less_trans [rotated])
  then have "(- 201 / 200000 - toDeg (150 / R)) * 1000 < - 2" by (simp add: algebra_simps)
  then have "\<lfloor>(- 201 / 200000 - toDeg (150 / R)) * 1000\<rfloor> < - 2" by (simp only: floor_less_iff of_int_minus of_int_numeral)
  then have "\<lfloor>(- 201 / 200000 - toDeg (150 / R)) * 1000\<rfloor> \<noteq> - 2" by linarith
  then have far: "makeIsCellBlocked hexGrid channelLand 1
        (geoToH3 hexGrid (lat (point (snapEndpointToWater bankPt (channelOpts None))))
                         (lng (point (snapEndpointToWater bankPt (channelOpts None)))) 9)"
    unfolding channel_snap_cell [OF a] channel_blocked by simp
  have mid: "\<not> makeIsCellBlocked hexGrid channelLand 1 (- 2, 0)"
    unfolding channel_blocked by simp
  from seed channel_target mid far show ?thesis
    by (simp add: channel_snap [OF a])
qed

text \<open>The same waypoint with a safety distance of 20 m: the result has the dock leg from the
  waypoint to the returned point, which here stays in the channel.\<close>

theorem snapEndpointToWater_result_witness:
  "makeIsCellBlocked hexGrid channelLand 1 (geoToH3 hexGrid (lat bankPt) (lng bankPt) 9)
   \<and> snapTarget hexGrid 9 (makeIsCellBlocked hexGrid channelLand 1) bankPt None 120
        = Some \<lparr>lng = 1 / 2000, lat = - 3 / 2000\<rparr>
   \<and> dock (snapEndpointToWater bankPt (channelOpts (Some 20))) = Straight
   \<and> dockLeg (snapEndpointToWater bankPt (channelOpts (Some 20)))
        = Some [(lng bankPt, lat bankPt),
                (lng (point (snapEndpointToWater bankPt (channelOpts (Some 20)))),
                 lat (point (snapEndpointToWater bankPt (channelOpts (Some 20)))))]
   \<and> \<not> makeIsCellBlocked hexGrid channelLand 1
        (geoToH3 hexGrid (lat (point (snapEndpointToWater bankPt (channelOpts (Some 20)))))
                         (lng (point (snapEndpointToWater bankPt (channelOpts (Some 20))))) 9)"
proof -
  let ?o = "channelOpts (Some 20)"
  have f: "snap_h3 ?o = hexGrid" "snap_h3Res ?o = 9"
    "snap_hasLandCell ?o = channelLand" "snap_dilateKRings ?o = None"
    "searchMaxRings ?o = None" "hintBearing ?o = None"
    by (simp_all add: channelOpts_def)
  have cell: "geoToH3 hexGrid (lat bankPt) (lng bankPt) 9 = (0, 0)"
    by (simp add: hexGrid_def bankPt_def)
  have seed: "makeIsCellBlocked hexGrid channelLand 1 (geoToH3 hexGrid (lat bankPt) (lng bankPt) 9)"
    unfolding cell channel_blocked by simp
  have a: "(0::real) \<le> 20" "(20::real) \<le> 1000" "Some 20 = (None :: real option) \<and> (20::real) = 150 \<or> Some 20 = Some (20::real)"
    by simp_all
  have "20 * 45 / R < toDeg (20 / R)" by (rule toDeg_bounds) simp
  moreover have "0 < 20 * 45 / R" by (simp add: R_def)
  ultimately have lo: "0 < toDeg (20 / R)" by (rule less_trans [rotated])
  have "toDeg (20 / R) \<le> 20 * 90 / R" by (rule toDeg_bounds) simp
  moreover have "20 * 90 / R < 1 / 2000" by (simp add: R_def)
  ultimately have hi: "toDeg (20 / R) < 1 / 2000" by (rule le_less_trans)
  from lo hi have "- 2 \<le> (- 201 / 200000 - toDeg (20 / R)) * 1000"
    "(- 201 / 200000 - toDeg (20 / R)) * 1000 < - 1" by (simp_all add: algebra_simps)
  then have "\<lfloor>(- 201 / 200000 - toDeg (20 / R)) * 1000\<rfloor> = - 2" by (simp add: floor_eq_iff)
  then have near: "\<not> makeIsCellBlocked hexGrid channelLand 1
        (geoToH3 hexGrid (lat (point (snapEndpointToWater bankPt ?o)))
                         (lng (point (snapEndpointToWater bankPt ?o))) 9)"
    unfolding channel_snap_cell [OF a] channel_blocked by simp
  from snapEndpointToWater_result [of ?o bankPt, unfolded f option.case] seed channel_target
  have "dockLeg (snapEndpointToWater bankPt ?o)
        = Some [(lng bankPt, lat bankPt),
                (lng (point (snapEndpointToWater bankPt ?o)), lat (point (snapEndpointToWater bankPt ?o)))]"
    by blast
  with seed channel_target near show ?thesis by (simp add: channel_snap [OF a])
qed

subsection \<open>The A* search\<close>

declare siftUp.simps [simp del] siftDown.simps [simp del] aStarLoop.simps [simp del]

lemma siftUp_props: "i < length heap \<Longrightarrow> length (siftUp heap i) = length heap \<and> set (siftUp heap i) = set heap"
proof (induction heap i rule: siftUp.induct)
  case (1 heap i)
  show ?case
  proof (cases "0 < i \<and> \<not> fst (heap ! ((i - 1) div 2)) \<le> fst (heap ! i)")
    case False
    then show ?thesis by (subst (1 2) siftUp.simps) (auto simp: Let_def)
  next
    case True
    let ?p = "(i - 1) div 2"
    have p: "?p < length heap" using 1(2) True by simp
    have "length (siftUp (heap[?p := heap ! i, i := heap ! ?p]) ?p) = length (heap[?p := heap ! i, i := heap ! ?p])
        \<and> set (siftUp (heap[?p := heap ! i, i := heap ! ?p]) ?p) = set (heap[?p := heap ! i, i := heap ! ?p])"
      using True p by (intro 1(1)) simp_all
    moreover have "set (heap[?p := heap ! i, i := heap ! ?p]) = set heap"
      using p 1(2) by (simp add: set_swap)
    ultimately show ?thesis using True by (subst (1 2) siftUp.simps) (simp add: Let_def)
  qed
qed

lemma set_push: "set (push f c heap) = insert (f, c) (set heap)"
  using siftUp_props [of "length heap" "heap @ [(f, c)]"] by (simp add: push_def)

lemma smallest_range: "i < length heap \<Longrightarrow> smallest heap i < length heap"
  by (auto simp: smallest_def Let_def)

lemma siftDown_props: "i < length heap \<Longrightarrow> set (siftDown heap i) = set heap"
proof (induction heap i rule: siftDown.induct)
  case (1 heap i)
  show ?case
  proof (cases "smallest heap i = i")
    case True
    then show ?thesis by (subst siftDown.simps) (simp add: Let_def)
  next
    case False
    let ?s = "smallest heap i"
    have s: "?s < length heap" using 1(2) by (rule smallest_range)
    have "set (siftDown (heap[i := heap ! ?s, ?s := heap ! i]) ?s) = set (heap[i := heap ! ?s, ?s := heap ! i])"
      using False s by (intro 1(1)) simp_all
    moreover have "set (heap[i := heap ! ?s, ?s := heap ! i]) = set heap"
      using s 1(2) by (simp add: set_swap)
    ultimately show ?thesis using False by (subst siftDown.simps) (simp add: Let_def)
  qed
qed

lemma pop_Some:
  assumes "pop heap = Some (t, rest)"
  shows "t \<in> set heap \<and> set rest \<subseteq> set heap"
proof -
  from assms have ne: "heap \<noteq> []" by (auto simp: pop_def split: if_splits)
  then have t: "heap ! 0 \<in> set heap" by simp
  show ?thesis
  proof (cases "butlast heap = []")
    case True
    with assms ne t show ?thesis by (auto simp: pop_def Let_def)
  next
    case False
    then have len: "0 < length (butlast heap)" by (cases "butlast heap") auto
    have "set ((butlast heap)[0 := last heap]) \<subseteq> set heap"
      using ne by (metis insert_subset last_in_set set_update_subset_insert subset_trans in_set_butlastD subsetI)
    moreover have "set (siftDown ((butlast heap)[0 := last heap]) 0) = set ((butlast heap)[0 := last heap])"
      using len by (intro siftDown_props) simp
    ultimately show ?thesis using assms ne t False by (auto simp: pop_def Let_def)
  qed
qed

lemma pop_None: "pop heap = None \<longleftrightarrow> heap = []"
  by (auto simp: pop_def Let_def)

lemma parentChain_hd: "parentChain came x ps \<Longrightarrow> ps \<noteq> [] \<and> hd ps = x"
  by (induction rule: parentChain.induct) auto

lemma parentChain_walk:
  "parentChain came x ps \<Longrightarrow> walkParents came x acc = Some (acc @ tl ps)"
proof (induction arbitrary: acc rule: parentChain.induct)
  case (root came x)
  then show ?case by (subst walkParents.simps) simp
next
  case (link came x p ps)
  from parentChain_hd [OF link(2)] have "ps = p # tl ps" by (cases ps) auto
  then have "(acc @ [p]) @ tl ps = acc @ ps" by (metis append.assoc append_Cons append_Nil)
  with link(3) [of "acc @ [p]"] link(1) show ?case by (subst walkParents.simps) simp
qed

lemma parentChain_upd_avoid:
  "parentChain came x ps \<Longrightarrow> nb \<notin> set ps \<Longrightarrow> parentChain (came(nb \<mapsto> c)) x ps"
proof (induction rule: parentChain.induct)
  case (root came x)
  then show ?case by (auto intro: parentChain.root)
next
  case (link came x p ps)
  then show ?case by (auto intro: parentChain.link)
qed

text \<open>A chain through \<open>nb\<close> is redirected, after \<open>nb\<close> gets a new parent, into the new chain of
  \<open>nb\<close>.\<close>

lemma parentChain_upd_through:
  assumes "parentChain came x ps" "nb \<in> set ps" "parentChain (came(nb \<mapsto> c)) nb qs"
  shows "\<exists>pre. parentChain (came(nb \<mapsto> c)) x (pre @ qs) \<and> set pre \<subseteq> set ps \<and> nb \<notin> set pre"
  using assms
proof (induction rule: parentChain.induct)
  case (root came x)
  then have "x = nb" by simp
  with root(3) show ?case by (intro exI [of _ "[]"]) simp
next
  case (link came x p ps)
  show ?case
  proof (cases "x = nb")
    case True
    with link(5) show ?thesis by (intro exI [of _ "[]"]) simp
  next
    case False
    with link(4) have "nb \<in> set ps" by simp
    from link(3) [OF this link(5)] obtain pre
      where pre: "parentChain (came(nb \<mapsto> c)) p (pre @ qs)" "set pre \<subseteq> set ps" "nb \<notin> set pre"
      by blast
    have "(came(nb \<mapsto> c)) x = Some p" using False link(1) by simp
    from parentChain.link [OF this pre(1)]
    have "parentChain (came(nb \<mapsto> c)) x ((x # pre) @ qs)" by simp
    moreover have "set (x # pre) \<subseteq> set (x # ps)" using pre(2) by auto
    moreover have "nb \<notin> set (x # pre)" using pre(3) False by simp
    ultimately show ?thesis by blast
  qed
qed

lemma parentChain_last_append:
  "parentChain came x (pre @ qs) \<Longrightarrow> qs \<noteq> [] \<Longrightarrow> last (pre @ qs) = last qs"
  by simp

lemma parentChain_edges:
  assumes "parentChain came x ps" "\<And>y p. came y = Some p \<Longrightarrow> E p y"
  shows "successively (\<lambda>y p. E p y) ps"
  using assms
proof (induction rule: parentChain.induct)
  case (root came x) then show ?case by simp
next
  case (link came x p ps)
  from parentChain_hd [OF link(2)] obtain ps' where "ps = p # ps'" by (cases ps) auto
  with link show ?case by auto
qed

lemma astarInv_iff:
  "astarInv opts start (heap, g, came) \<longleftrightarrow>
     g start = Some 0
     \<and> (\<forall>x v. g x = Some v \<longrightarrow> 0 \<le> v)
     \<and> came start = None
     \<and> (\<forall>x vx. g x = Some vx \<longrightarrow>
           (\<exists>ps. parentChain came x ps \<and> last ps = start
                 \<and> (\<forall>y \<in> set ps. \<exists>vy. g y = Some vy \<and> vy \<le> vx)))
     \<and> (\<forall>x p. came x = Some p \<longrightarrow> astarEdge opts p x)
     \<and> (\<forall>e \<in> set heap. g (snd e) \<noteq> None)"
  by (simp add: astarInv_def)

text \<open>Relaxing an edge to a neighbour that improves keeps the invariant.\<close>

lemma astarInv_update:
  assumes inv: "astarInv opts start (heap, g, came)"
    and edge: "astarEdge opts cur nb"
    and gc: "g cur = Some gc" and w: "0 \<le> w"
    and better: "case g nb of None \<Rightarrow> True | Some gn \<Rightarrow> gc + w < gn"
  shows "astarInv opts start (push f nb heap, g(nb \<mapsto> gc + w), came(nb \<mapsto> cur))"
proof -
  from inv have g0: "g start = Some 0"
    and nonneg: "\<And>x v. g x = Some v \<Longrightarrow> 0 \<le> v"
    and c0: "came start = None"
    and chains: "\<And>x vx. g x = Some vx \<Longrightarrow>
           \<exists>ps. parentChain came x ps \<and> last ps = start
                 \<and> (\<forall>y \<in> set ps. \<exists>vy. g y = Some vy \<and> vy \<le> vx)"
    and edges: "\<And>x p. came x = Some p \<Longrightarrow> astarEdge opts p x"
    and hp: "\<And>e. e \<in> set heap \<Longrightarrow> g (snd e) \<noteq> None"
    unfolding astarInv_iff by blast+
  let ?t = "gc + w"
  let ?g = "g(nb \<mapsto> ?t)"
  let ?came = "came(nb \<mapsto> cur)"
  have gc0: "0 \<le> gc" using nonneg [OF gc] .
  have t0: "0 \<le> ?t" using gc0 w by simp
  have nb_start: "nb \<noteq> start"
  proof
    assume "nb = start"
    with better g0 have "?t < 0" by simp
    with t0 show False by simp
  qed
  from chains [OF gc] obtain pc where pc: "parentChain came cur pc" "last pc = start"
    "\<And>y. y \<in> set pc \<Longrightarrow> \<exists>vy. g y = Some vy \<and> vy \<le> gc" by blast
  have nb_pc: "nb \<notin> set pc"
  proof
    assume "nb \<in> set pc"
    from pc(3) [OF this] obtain vn where vn: "g nb = Some vn" "vn \<le> gc" by blast
    with better have "?t < vn" by simp
    with vn(2) w show False by simp
  qed
  have pc_ne: "pc \<noteq> []" using parentChain_hd [OF pc(1)] by simp
  have chain_cur: "parentChain ?came cur pc" using pc(1) nb_pc by (rule parentChain_upd_avoid)
  have "?came nb = Some cur" by simp
  from parentChain.link [OF this chain_cur] have chain_nb: "parentChain ?came nb (nb # pc)" .
  have bound_pc: "\<exists>vy. ?g y = Some vy \<and> vy \<le> ?t" if "y \<in> set pc" for y
  proof -
    from pc(3) [OF that] obtain vy where "g y = Some vy" "vy \<le> gc" by blast
    moreover have "y \<noteq> nb" using that nb_pc by auto
    ultimately show ?thesis using w by auto
  qed
  have new_chains: "\<exists>ps. parentChain ?came x ps \<and> last ps = start
                 \<and> (\<forall>y \<in> set ps. \<exists>vy. ?g y = Some vy \<and> vy \<le> vx)"
    if gx: "?g x = Some vx" for x vx
  proof (cases "x = nb")
    case True
    with gx have vx: "vx = ?t" by simp
    have "last (nb # pc) = start" using pc(2) pc_ne by simp
    moreover have "\<forall>y \<in> set (nb # pc). \<exists>vy. ?g y = Some vy \<and> vy \<le> vx"
      using bound_pc vx by auto
    ultimately show ?thesis using chain_nb True by blast
  next
    case False
    with gx have gx': "g x = Some vx" by simp
    from chains [OF gx'] obtain ps where ps: "parentChain came x ps" "last ps = start"
      "\<And>y. y \<in> set ps \<Longrightarrow> \<exists>vy. g y = Some vy \<and> vy \<le> vx" by blast
    show ?thesis
    proof (cases "nb \<in> set ps")
      case nbps: False
      have "parentChain ?came x ps" using ps(1) nbps by (rule parentChain_upd_avoid)
      moreover have "\<forall>y \<in> set ps. \<exists>vy. ?g y = Some vy \<and> vy \<le> vx"
      proof
        fix y assume y: "y \<in> set ps"
        then have "y \<noteq> nb" using nbps by auto
        with ps(3) [OF y] show "\<exists>vy. ?g y = Some vy \<and> vy \<le> vx" by simp
      qed
      ultimately show ?thesis using ps(2) by blast
    next
      case nbps: True
      from ps(3) [OF nbps] obtain vn where vn: "g nb = Some vn" "vn \<le> vx" by blast
      with better have tvn: "?t < vn" by simp
      from parentChain_upd_through [OF ps(1) nbps chain_nb] obtain pre
        where pre: "parentChain ?came x (pre @ nb # pc)" "set pre \<subseteq> set ps" "nb \<notin> set pre"
        by blast
      have "last (pre @ nb # pc) = start" using pc(2) pc_ne by simp
      moreover have "\<forall>y \<in> set (pre @ nb # pc). \<exists>vy. ?g y = Some vy \<and> vy \<le> vx"
      proof
        fix y assume "y \<in> set (pre @ nb # pc)"
        then consider (a) "y \<in> set pre" | (b) "y = nb" | (c) "y \<in> set pc" by auto
        then show "\<exists>vy. ?g y = Some vy \<and> vy \<le> vx"
        proof cases
          case a
          then have "y \<in> set ps" "y \<noteq> nb" using pre(2,3) by auto
          with ps(3) [of y] show ?thesis by simp
        next
          case b
          then show ?thesis using tvn vn(2) by simp
        next
          case c
          from bound_pc [OF c] obtain vy where "?g y = Some vy" "vy \<le> ?t" by blast
          then show ?thesis using tvn vn(2) by auto
        qed
      qed
      ultimately show ?thesis using pre(1) by blast
    qed
  qed
  have new_edges: "astarEdge opts p x" if "?came x = Some p" for x p
    using that edge edges by (cases "x = nb") auto
  have new_heap: "?g (snd e) \<noteq> None" if "e \<in> set (push f nb heap)" for e
  proof (cases "e \<in> set heap")
    case True
    from hp [OF this] show ?thesis by (cases "snd e = nb") auto
  next
    case False
    with that have "e = (f, nb)" by (simp add: set_push)
    then show ?thesis by simp
  qed
  have new_nonneg: "0 \<le> v" if "?g x = Some v" for x v
    using that t0 nonneg by (cases "x = nb") auto
  show ?thesis
    unfolding astarInv_iff
    using g0 nb_start c0 new_chains new_edges new_heap new_nonneg by auto
qed

text \<open>The three outcomes of \<open>relax\<close>.\<close>

lemma relax_skip:
  assumes "nb = cur \<or> (case allowed opts of None \<Rightarrow> False | Some a \<Rightarrow> nb \<notin> a)
           \<or> as_isCellBlocked opts nb
           \<or> chordCrossesLand (h3Center cur (as_h3 opts)) (h3Center nb (as_h3 opts)) (edgeCtx opts)
           \<or> g cur = None"
  shows "relax opts goalC cur (heap, g, came) nb = (heap, g, came)"
proof -
  define A where "A = (case allowed opts of None \<Rightarrow> False | Some a \<Rightarrow> nb \<notin> a)"
  define B where "B = as_isCellBlocked opts nb"
  define C where "C = chordCrossesLand (h3Center cur (as_h3 opts)) (h3Center nb (as_h3 opts)) (edgeCtx opts)"
  have r: "relax opts goalC cur (heap, g, came) nb =
      (if nb = cur then (heap, g, came) else if A then (heap, g, came) else if B then (heap, g, came)
       else if C then (heap, g, came)
       else (case g cur of None \<Rightarrow> (heap, g, came)
             | Some gc \<Rightarrow>
                 (let tentative = gc + haversineM (h3Center cur (as_h3 opts)) (h3Center nb (as_h3 opts))
                  in if (case g nb of None \<Rightarrow> True | Some gn \<Rightarrow> tentative < gn)
                     then (push (tentative + haversineM (h3Center nb (as_h3 opts)) goalC) nb heap,
                           g(nb \<mapsto> tentative), came(nb \<mapsto> cur))
                     else (heap, g, came))))"
    unfolding relax_def A_def B_def C_def by (simp only: Let_def prod.case)
  from assms have "nb = cur \<or> A \<or> B \<or> C \<or> g cur = None" unfolding A_def B_def C_def .
  then show ?thesis unfolding r by auto
qed

lemma relax_step:
  assumes "nb \<noteq> cur" "\<not> (case allowed opts of None \<Rightarrow> False | Some a \<Rightarrow> nb \<notin> a)"
    "\<not> as_isCellBlocked opts nb"
    "\<not> chordCrossesLand (h3Center cur (as_h3 opts)) (h3Center nb (as_h3 opts)) (edgeCtx opts)"
    "g cur = Some gc"
  shows "relax opts goalC cur (heap, g, came) nb =
           (if (case g nb of None \<Rightarrow> True
                | Some gn \<Rightarrow> gc + haversineM (h3Center cur (as_h3 opts)) (h3Center nb (as_h3 opts)) < gn)
            then (push (gc + haversineM (h3Center cur (as_h3 opts)) (h3Center nb (as_h3 opts))
                          + haversineM (h3Center nb (as_h3 opts)) goalC) nb heap,
                  g(nb \<mapsto> gc + haversineM (h3Center cur (as_h3 opts)) (h3Center nb (as_h3 opts))),
                  came(nb \<mapsto> cur))
            else (heap, g, came))"
  using assms by (simp add: relax_def Let_def)

lemma relax_inv:
  assumes valid: "\<And>c. \<bar>lat (h3Center c (as_h3 opts))\<bar> \<le> 90"
    and inv: "astarInv opts start st"
    and nb: "nb \<in> set (kRing (as_h3 opts) cur 1)"
  shows "astarInv opts start (relax opts goalC cur st nb)"
proof -
  obtain heap g came where st: "st = (heap, g, came)" by (cases st) auto
  let ?c = "edgeCtx opts"
  let ?w = "haversineM (h3Center cur (as_h3 opts)) (h3Center nb (as_h3 opts))"
  have w: "0 \<le> ?w" by (rule haversineM_nonneg) (rule valid)+
  show ?thesis
  proof (cases "nb = cur \<or> (case allowed opts of None \<Rightarrow> False | Some a \<Rightarrow> nb \<notin> a)
           \<or> as_isCellBlocked opts nb
           \<or> chordCrossesLand (h3Center cur (as_h3 opts)) (h3Center nb (as_h3 opts)) ?c
           \<or> g cur = None")
    case True
    from relax_skip [where g = g and heap = heap and came = came and goalC = goalC, OF True] inv
    show ?thesis unfolding st by simp
  next
    case False
    then obtain gc where gc: "g cur = Some gc" by auto
    from False have c: "nb \<noteq> cur" "\<not> (case allowed opts of None \<Rightarrow> False | Some a \<Rightarrow> nb \<notin> a)"
      "\<not> as_isCellBlocked opts nb"
      "\<not> chordCrossesLand (h3Center cur (as_h3 opts)) (h3Center nb (as_h3 opts)) ?c"
      by simp_all
    have al: "case allowed opts of None \<Rightarrow> True | Some s \<Rightarrow> nb \<in> s"
      using c(2) by (cases "allowed opts") simp_all
    have edge: "astarEdge opts cur nb"
      unfolding astarEdge_def using nb c(1,3,4) al by blast
    note step = relax_step [where g = g and heap = heap and came = came and goalC = goalC, OF c gc]
    show ?thesis
    proof (cases "case g nb of None \<Rightarrow> True | Some gn \<Rightarrow> gc + ?w < gn")
      case better: False
      then show ?thesis unfolding st step using inv st by simp
    next
      case better: True
      have "astarInv opts start
            (push (gc + ?w + haversineM (h3Center nb (as_h3 opts)) goalC) nb heap,
             g(nb \<mapsto> gc + ?w), came(nb \<mapsto> cur))"
        using inv [unfolded st] edge gc w better by (rule astarInv_update)
      then show ?thesis unfolding st step using better by simp
    qed
  qed
qed

lemma foldl_relax_inv:
  assumes valid: "\<And>c. \<bar>lat (h3Center c (as_h3 opts))\<bar> \<le> 90"
  shows "astarInv opts start st \<Longrightarrow> set ns \<subseteq> set (kRing (as_h3 opts) cur 1) \<Longrightarrow>
         astarInv opts start (foldl (relax opts goalC cur) st ns)"
proof (induction ns arbitrary: st)
  case Nil then show ?case by simp
next
  case (Cons n ns)
  have "astarInv opts start (relax opts goalC cur st n)"
    using valid Cons.prems by (intro relax_inv) auto
  with Cons show ?case by simp
qed

lemma astarInv_heap_subset:
  assumes "astarInv opts start (heap, g, came)" "set heap' \<subseteq> set heap"
  shows "astarInv opts start (heap', g, came)"
proof -
  from assms(1) have h: "\<forall>e \<in> set heap. g (snd e) \<noteq> None"
    and rest: "g start = Some 0
     \<and> (\<forall>x v. g x = Some v \<longrightarrow> 0 \<le> v)
     \<and> came start = None
     \<and> (\<forall>x vx. g x = Some vx \<longrightarrow>
           (\<exists>ps. parentChain came x ps \<and> last ps = start
                 \<and> (\<forall>y \<in> set ps. \<exists>vy. g y = Some vy \<and> vy \<le> vx)))
     \<and> (\<forall>x p. came x = Some p \<longrightarrow> astarEdge opts p x)"
    by (simp_all add: astarInv_iff)
  from h assms(2) have "\<forall>e \<in> set heap'. g (snd e) \<noteq> None" by (meson subsetD)
  with rest show ?thesis by (simp add: astarInv_iff)
qed

text \<open>The reconstruction from a cell that has a cost.\<close>

lemma reconstruct_path:
  assumes inv: "astarInv opts start (heap, g, came)" and gx: "g x = Some vx"
  shows "\<exists>ps. walkParents came x [x] = Some ps \<and> ps \<noteq> [] \<and> hd (rev ps) = start \<and> last (rev ps) = x
             \<and> successively (astarEdge opts) (rev ps)"
proof -
  from inv have "\<forall>x vx. g x = Some vx \<longrightarrow>
           (\<exists>ps. parentChain came x ps \<and> last ps = start
                 \<and> (\<forall>y \<in> set ps. \<exists>vy. g y = Some vy \<and> vy \<le> vx))"
    by (simp add: astarInv_iff)
  then have "\<exists>ps. parentChain came x ps \<and> last ps = start
                 \<and> (\<forall>y \<in> set ps. \<exists>vy. g y = Some vy \<and> vy \<le> vx)"
    using gx by (elim allE impE)
  then obtain ps where ps: "parentChain came x ps" "last ps = start" by (elim exE conjE)
  from inv have "\<forall>y p. came y = Some p \<longrightarrow> astarEdge opts p y"
    by (simp add: astarInv_iff)
  then have edges: "\<And>y p. came y = Some p \<Longrightarrow> astarEdge opts p y" by (elim allE impE)
  from parentChain_hd [OF ps(1)] have hd: "ps \<noteq> []" "hd ps = x" by simp_all
  then have "[x] @ tl ps = ps" by (cases ps) auto
  with parentChain_walk [OF ps(1), of "[x]"] have "walkParents came x [x] = Some ps" by simp
  moreover have "hd (rev ps) = start" using ps(2) hd(1) by (simp add: hd_rev)
  moreover have "last (rev ps) = x" using hd by (simp add: last_rev)
  moreover have "successively (astarEdge opts) (rev ps)"
    using parentChain_edges [OF ps(1), of "astarEdge opts"] edges by simp
  ultimately show ?thesis using hd(1) by (intro exI [of _ ps] conjI)
qed

lemma aStarLoop_props:
  shows "\<forall>c. \<bar>lat (h3Center c (as_h3 opts))\<bar> \<le> 90 \<Longrightarrow> astarInv opts start st \<Longrightarrow>
     guard \<le> fst (aStarLoop opts goal goalC maxE st guard)
     \<and> fst (aStarLoop opts goal goalC maxE st guard) \<le> max guard maxE
     \<and> (\<exists>res. snd (aStarLoop opts goal goalC maxE st guard) = Some res)
     \<and> (\<forall>path. snd (aStarLoop opts goal goalC maxE st guard) = Some (Some path) \<longrightarrow>
           path \<noteq> [] \<and> hd path = start \<and> last path = goal \<and> successively (astarEdge opts) path)"
proof (induction opts goal goalC maxE st guard rule: aStarLoop.induct)
  case (1 opts goal goalC maxE st guard)
  obtain heap g came where st: "st = (heap, g, came)" by (cases st) auto
  note valid = "1.prems"(1) and inv = "1.prems"(2)
  show ?case
  proof (cases "heap = [] \<or> maxE < guard + 1")
    case True
    then have "aStarLoop opts goal goalC maxE st guard = (guard, Some None)"
      unfolding st by (subst aStarLoop.simps) auto
    then show ?thesis by simp
  next
    case False
    then obtain f cur heap' where pop: "pop heap = Some ((f, cur), heap')"
      using pop_None [of heap] by (cases "pop heap") auto
    from pop_Some [OF pop] have top: "(f, cur) \<in> set heap" and sub: "set heap' \<subseteq> set heap" by simp_all
    show ?thesis
    proof (cases "cur = goal")
      case True
      from inv have "\<forall>e \<in> set heap. g (snd e) \<noteq> None" unfolding st by (simp add: astarInv_iff)
      with top have "g cur \<noteq> None" by (metis snd_conv)
      then obtain vc where "g cur = Some vc" by (cases "g cur") simp_all
      from reconstruct_path [OF inv [unfolded st] this] obtain ps
        where ps: "walkParents came cur [cur] = Some ps" "ps \<noteq> []" "hd (rev ps) = start"
          "last (rev ps) = cur" "successively (astarEdge opts) (rev ps)" by blast
      have "aStarLoop opts goal goalC maxE st guard = (guard + 1, Some (Some (rev ps)))"
        unfolding st using False pop True ps(1) by (subst aStarLoop.simps) simp
      then show ?thesis using ps True False by auto
    next
      case ne: False
      let ?st' = "foldl (relax opts goalC cur) (heap', g, came) (kRing (as_h3 opts) cur 1)"
      have "astarInv opts start (heap', g, came)"
        using inv [unfolded st] sub by (rule astarInv_heap_subset)
      then have inv': "astarInv opts start ?st'"
        using valid by (intro foldl_relax_inv) auto
      have eq: "aStarLoop opts goal goalC maxE st guard = aStarLoop opts goal goalC maxE ?st' (guard + 1)"
        unfolding st using False pop ne by (subst aStarLoop.simps) simp
      have "guard + 1 \<le> fst (aStarLoop opts goal goalC maxE ?st' (guard + 1))
     \<and> fst (aStarLoop opts goal goalC maxE ?st' (guard + 1)) \<le> max (guard + 1) maxE
     \<and> (\<exists>res. snd (aStarLoop opts goal goalC maxE ?st' (guard + 1)) = Some res)
     \<and> (\<forall>path. snd (aStarLoop opts goal goalC maxE ?st' (guard + 1)) = Some (Some path) \<longrightarrow>
           path \<noteq> [] \<and> hd path = start \<and> last path = goal \<and> successively (astarEdge opts) path)"
        using False
        by (intro "1.IH" [of st heap "(g, came)" g came "((f, cur), heap')" "(f, cur)" heap' f cur,
              OF refl st [symmetric] refl _ _ pop refl refl ne valid inv']) auto
      then show ?thesis unfolding eq using False by (auto simp: max_def)
    qed
  qed
qed

lemma push_empty: "push f c [] = [(f, c)]"
  by (simp add: push_def siftUp.simps)

lemma astarInv_init: "astarInv opts start (push f start [], [start \<mapsto> 0], Map.empty)"
proof -
  have "parentChain Map.empty start [start]" by (rule parentChain.root) simp
  then have "\<exists>ps. parentChain Map.empty start ps \<and> last ps = start
                 \<and> (\<forall>y \<in> set ps. \<exists>vy. [start \<mapsto> 0::real] y = Some vy \<and> vy \<le> 0)"
    by (intro exI [of _ "[start]"]) simp
  then show ?thesis by (simp add: astarInv_iff push_empty)
qed

text \<open>
  \<^bold>\<open>C4\<close>. On a grid whose cell centres have valid latitudes, \<open>aStarH3\<close> returns for every
  start cell, goal cell, blocked-test and corridor, after at most \<open>maxExpansions\<close> expansions
  (200000 when the option is left out); what it returns is \<^verbatim>\<open>null\<close> or a path. The path is
  the reversed chain of parent links from the goal: it starts at the start cell, ends at the
  goal cell, and every step of it is an edge the search has accepted (a neighbour in the ring
  of radius one, inside the corridor, unblocked, with an unblocked chord between the centres).
\<close>

theorem aStarH3_bounded:
  assumes "\<forall>c. \<bar>lat (h3Center c (as_h3 opts))\<bar> \<le> 90"
  shows "(\<exists>res. aStarH3 start goal opts = Some res)
       \<and> fst (aStarRun start goal opts) \<le> (case maxExpansions opts of None \<Rightarrow> 200000 | Some m \<Rightarrow> m)
       \<and> (\<forall>path. aStarH3 start goal opts = Some (Some path) \<longrightarrow>
              path \<noteq> [] \<and> hd path = start \<and> last path = goal
              \<and> successively (astarEdge opts) path)"
proof (cases "start = goal")
  case True
  then show ?thesis by (simp add: aStarH3_def aStarRun_def)
next
  case False
  define goalC where "goalC = h3Center goal (as_h3 opts)"
  define maxE where "maxE = (case maxExpansions opts of None \<Rightarrow> 200000 | Some m \<Rightarrow> m)"
  define st where "st = (push (haversineM (h3Center start (as_h3 opts)) goalC) start [],
                         [start \<mapsto> 0::real], Map.empty :: 'a \<rightharpoonup> 'a)"
  have run: "aStarRun start goal opts = aStarLoop opts goal goalC maxE st 0"
    using False by (simp add: aStarRun_def Let_def goalC_def maxE_def st_def)
  have inv: "astarInv opts start st" unfolding st_def by (rule astarInv_init)
  from aStarLoop_props [OF assms inv, of 0 goal goalC maxE]
  show ?thesis unfolding aStarH3_def run maxE_def [symmetric] by simp
qed

lemma canal_fields:
  "as_h3 (canalOpts m) = hexGrid" "as_h3Res (canalOpts m) = 9"
  "as_isCellBlocked (canalOpts m) = canalBlocked" "allowed (canalOpts m) = None"
  "maxExpansions (canalOpts m) = m"
  by (simp_all add: canalOpts_def)

lemma canal_edgeCtx: "edgeCtx (canalOpts m) = gridCtx canalBlocked 220"
  by (simp add: edgeCtx_def gridCtx_def canalOpts_def)

lemma canal_center_0: "h3Center (0, 0) hexGrid = gridPt 0"
  by (simp add: h3Center_def hexGrid_def gridPt_def)

lemma canal_center_1: "h3Center (1, 0) hexGrid = gridPt 1"
  by (simp add: h3Center_def hexGrid_def gridPt_def)

lemma hexGrid_valid: "\<bar>lat (h3Center c hexGrid)\<bar> \<le> 90"
  by (simp add: h3Center_def hexGrid_def split_beta)

lemma canal_chord_clear: "\<not> chordCrossesLand (gridPt 0) (gridPt 1) (gridCtx canalBlocked 220)"
proof -
  have "R * toRad (real_of_int (1 - 0) / 1000) \<le> 48 * 250" by (rule R_toRad_small) simp_all
  then have small: "R * toRad (real_of_int (1 - 0) / 1000) \<le> 48 * 220"
  proof -
    have "R * toRad (real_of_int (1 - 0) / 1000) = R * (1 / 1000) * pi / 180" by (simp add: toRad_def)
    also have "\<dots> \<le> R * (1 / 1000) * 4 / 180"
      using pi_less_4 R_pos by (intro divide_right_mono mult_left_mono) simp_all
    also have "\<dots> \<le> 48 * 220" by (simp add: R_def)
    finally show ?thesis .
  qed
  have cells: "\<not> canalBlocked (\<lfloor>of_int 0 + 1 / 2 + of_int (1 - 0) * (real i / 48)\<rfloor>, 0)" if "i \<in> {1..48}" for i
  proof -
    have "0 \<le> (1 / 2 + real i / 48 :: real)" by simp
    then have "0 \<le> \<lfloor>1 / 2 + real i / 48 :: real\<rfloor>" by (simp only: zero_le_floor)
    then show ?thesis by (simp add: canalBlocked_def)
  qed
  show ?thesis
    using cells by (subst chordCrossesLand_gridPt [OF _ _ _ _ small]) simp_all
qed

lemma canal_neighbours:
  "foldl (relax (canalOpts m) goalC (0, 0)) ([], [(0, 0) \<mapsto> 0], Map.empty) (kRing hexGrid (0, 0) 1)
     = ([(0 + haversineM (gridPt 0) (gridPt 1) + haversineM (gridPt 1) goalC, (1, 0))],
        [(0, 0) \<mapsto> 0, (1, 0) \<mapsto> 0 + haversineM (gridPt 0) (gridPt 1)],
        [(1, 0) \<mapsto> (0, 0)])"
proof -
  let ?st = "([] :: (real \<times> int \<times> int) list, [(0, 0) \<mapsto> 0 :: real], Map.empty :: int \<times> int \<rightharpoonup> int \<times> int)"
  have skip: "relax (canalOpts m) goalC (0, 0) ?st nb = ?st" if "nb = (0, 0) \<or> canalBlocked nb" for nb
    using that by (intro relax_skip) (auto simp: canal_fields)
  have step: "relax (canalOpts m) goalC (0, 0) ?st (1, 0) =
      ([(0 + haversineM (gridPt 0) (gridPt 1) + haversineM (gridPt 1) goalC, (1, 0))],
        [(0, 0) \<mapsto> 0, (1, 0) \<mapsto> 0 + haversineM (gridPt 0) (gridPt 1)],
        [(1, 0) \<mapsto> (0, 0)])"
    by (subst relax_step [where gc = 0])
       (simp_all add: canal_fields canal_edgeCtx canal_center_0 canal_center_1 canal_chord_clear
          canalBlocked_def push_empty)
  have ring: "kRing hexGrid (0, 0) 1 = [(- 1, 0), (- 1, 1), (0, - 1), (0, 0), (0, 1), (1, - 1), (1, 0)]"
    by (simp add: kRing_hexGrid hexRing_origin_1)
  show ?thesis
    unfolding ring
    by (simp only: foldl.simps skip [of "(- 1, 0)", simplified canalBlocked_def, simplified]
          skip [of "(- 1, 1)", simplified canalBlocked_def, simplified]
          skip [of "(0, - 1)", simplified canalBlocked_def, simplified]
          skip [of "(0, 0)", simplified]
          skip [of "(0, 1)", simplified canalBlocked_def, simplified]
          skip [of "(1, - 1)", simplified canalBlocked_def, simplified] step)
qed


lemma pop_single: "pop [x] = Some (x, [])"
  by (simp add: pop_def)

lemma canal_run:
  "aStarRun (0, 0) (1, 0) (canalOpts m)
     = aStarLoop (canalOpts m) (1, 0) (gridPt 1) (case m of None \<Rightarrow> 200000 | Some k \<Rightarrow> k)
         ([(0 + haversineM (gridPt 0) (gridPt 1) + haversineM (gridPt 1) (gridPt 1), (1, 0))],
          [(0, 0) \<mapsto> 0, (1, 0) \<mapsto> 0 + haversineM (gridPt 0) (gridPt 1)],
          [(1, 0) \<mapsto> (0, 0)]) 1"
  if "0 < (case m of None \<Rightarrow> 200000 | Some k \<Rightarrow> k)"
proof -
  have "aStarRun (0, 0) (1, 0) (canalOpts m)
     = aStarLoop (canalOpts m) (1, 0) (gridPt 1) (case m of None \<Rightarrow> 200000 | Some k \<Rightarrow> k)
         ([(haversineM (gridPt 0) (gridPt 1), (0, 0))], [(0, 0) \<mapsto> 0], Map.empty) 0"
    by (simp add: aStarRun_def Let_def canal_fields canal_center_0 canal_center_1 push_empty)
  also have "\<dots> = aStarLoop (canalOpts m) (1, 0) (gridPt 1) (case m of None \<Rightarrow> 200000 | Some k \<Rightarrow> k)
         (foldl (relax (canalOpts m) (gridPt 1) (0, 0)) ([], [(0, 0) \<mapsto> 0], Map.empty)
            (kRing hexGrid (0, 0) 1)) 1"
    using that by (subst aStarLoop.simps) (simp add: pop_single canal_fields not_less)
  finally show ?thesis by (simp only: canal_neighbours)
qed

theorem aStarH3_bounded_witness:
  "aStarH3 (0, 0) (1, 0) (canalOpts None) = Some (Some [(0, 0), (1, 0)])
   \<and> fst (aStarRun (0, 0) (1, 0) (canalOpts None)) = 2
   \<and> astarEdge (canalOpts None) (0, 0) (1, 0)
   \<and> aStarH3 (0, 0) (1, 0) (canalOpts (Some 1)) = Some None
   \<and> fst (aStarRun (0, 0) (1, 0) (canalOpts (Some 1))) = 1"
proof -
  have walk: "walkParents [(1, 0) \<mapsto> (0, 0)] ((1, 0) :: int \<times> int) [(1, 0)] = Some [(1, 0), (0, 0)]"
    by (simp add: walkParents.simps)
  have 1: "aStarRun (0, 0) (1, 0) (canalOpts None) = (2, Some (Some [(0, 0), (1, 0)]))"
    by (subst canal_run, simp, subst aStarLoop.simps) (simp add: pop_single walk)
  have 2: "aStarRun (0, 0) (1, 0) (canalOpts (Some 1)) = (1, Some None)"
    by (subst canal_run, simp, subst aStarLoop.simps) simp
  have valid: "\<forall>c. \<bar>lat (h3Center c (as_h3 (canalOpts None)))\<bar> \<le> 90"
    by (simp add: canal_fields hexGrid_valid)
  from aStarH3_bounded [OF valid, of "(0, 0)" "(1, 0)"] 1 2
  show ?thesis by (simp add: aStarH3_def)
qed

end
